theory Spec2Isabelle
  imports Main "HOL-Library.Sublist" "HOL-Library.Multiset" "HOL-Library.Char_ord"
    "HOL-Library.List_Lexorder"
begin

section \<open>Python strings\<close>

text \<open>
  The part of \<^verbatim>\<open>str\<close> that \<^verbatim>\<open>bh_support/notedb.py\<close> uses: \<^verbatim>\<open>line.find(sub, start)\<close>,
  \<^verbatim>\<open>sub in line\<close>, slices \<^verbatim>\<open>line[b:e]\<close> (with Python's treatment of negative and
  out-of-range bounds) and \<^verbatim>\<open>s.replace(":", "-")\<close>.
\<close>

fun find0 :: "string \<Rightarrow> string \<Rightarrow> nat option" where
  "find0 sub [] = (if sub = [] then Some 0 else None)"
| "find0 sub (c # cs) =
     (if prefix sub (c # cs) then Some 0 else map_option Suc (find0 sub cs))"

text \<open>\<^verbatim>\<open>line.find(sub, start)\<close> for \<open>start \<ge> 0\<close>: the lowest index at or after
  \<open>start\<close> where \<open>sub\<close> occurs, or \<open>-1\<close>.\<close>

definition py_find :: "string \<Rightarrow> string \<Rightarrow> nat \<Rightarrow> int" where
  "py_find line sub start =
     (if length line < start then - 1
      else case find0 sub (drop start line) of
             None \<Rightarrow> - 1
           | Some j \<Rightarrow> int (start + j))"

definition py_in :: "string \<Rightarrow> string \<Rightarrow> bool" where
  "py_in sub line = (find0 sub line \<noteq> None)"

definition py_slice :: "'a list \<Rightarrow> int \<Rightarrow> int \<Rightarrow> 'a list" where
  "py_slice xs b e =
     (let n = int (length xs);
          b' = (if b < 0 then max 0 (b + n) else min b n);
          e' = (if e < 0 then max 0 (e + n) else min e n)
      in take (nat (e' - b')) (drop (nat b') xs))"

definition replace_colon :: "string \<Rightarrow> string" where
  "replace_colon s = map (\<lambda>c. if c = CHR '':'' then CHR ''-'' else c) s"

section \<open>Paths\<close>

text \<open>
  A path is the list of its components below the root. \<open>Path s\<close> is \<^verbatim>\<open>pathlib.Path(s)\<close>
  for an absolute string \<open>s\<close> (empty components and \<^verbatim>\<open>.\<close> are dropped, \<^verbatim>\<open>..\<close> is
  kept as a component and not resolved), \<open>pjoin p s\<close> is \<^verbatim>\<open>p / s\<close> (an absolute \<open>s\<close>
  replaces \<open>p\<close>).
\<close>

type_synonym path = "string list"

fun split_slash :: "string \<Rightarrow> string list" where
  "split_slash [] = [[]]"
| "split_slash (c # cs) =
     (if c = CHR ''/'' then [] # split_slash cs
      else (case split_slash cs of
              [] \<Rightarrow> [[c]]
            | w # ws \<Rightarrow> (c # w) # ws))"

definition parts :: "string \<Rightarrow> path" where
  "parts s = filter (\<lambda>w. w \<noteq> [] \<and> w \<noteq> ''.'') (split_slash s)"

definition Path :: "string \<Rightarrow> path" where
  "Path s = parts s"

definition pjoin :: "path \<Rightarrow> string \<Rightarrow> path" where
  "pjoin p s = (if s \<noteq> [] \<and> hd s = CHR ''/'' then parts s else p @ parts s)"

definition BACKUP_DIR :: string where
  "BACKUP_DIR = ''/Users/csp/Backups/Bear''"

definition FILES_DIR :: string where
  "FILES_DIR = ''/Users/csp/Library/Group Containers/9K33E3U3T4.net.shinyfrog.bear/Application Data/Local Files/Note Files/''"

definition IMAGE_DIR :: string where
  "IMAGE_DIR = ''/Users/csp/Library/Group Containers/9K33E3U3T4.net.shinyfrog.bear/Application Data/Local Files/Note Images/''"

section \<open>Notes, the file store and the state of a NoteDB\<close>

text \<open>
  A note is the dictionary Bear returns for it. The program sorts the value of
  \<^verbatim>\<open>tags\<close> and compares the sorted lists (line 137). The source documents that value
  as a string: the comment of \<^verbatim>\<open>note_list\<close> shows \<^verbatim>\<open>'tags': '[]'\<close> and the method returns
  \<^verbatim>\<open>List[Dict[str,str]]\<close>. What \<^verbatim>\<open>sorted\<close> sorts is then the characters of the string, and
  a note is a \<open>char note_info\<close>. The record leaves the type of the elements open, so
  that the general statements also cover a value of \<^verbatim>\<open>tags\<close> that is a list of names.
\<close>

record 't note_info =
  "identifier" :: string
  title :: string
  tags :: "'t list"
  modificationDate :: string
  creationDate :: string
  pin :: string

text \<open>
  A file holds what was written to it: \<open>Json n\<close> is the text \<^verbatim>\<open>json.dumps(n)\<close>, read
  back by \<^verbatim>\<open>json.load\<close>; \<open>Text ls\<close> is a text file of the lines \<open>ls\<close>, each written
  as \<^verbatim>\<open>write(line); write("\n")\<close> and read back by \<^verbatim>\<open>read().splitlines()\<close>
  (the lines come from \<^verbatim>\<open>splitlines()\<close>, so none holds a line break; \<open>Text []\<close> is the
  empty file); \<open>Data k\<close> is any other content, such as an image.
\<close>

datatype 't content = Json "'t note_info" | Text "string list" | Data nat

datatype 't node = Dir | File "'t content"

text \<open>The file system: the entries by path, the first entry of a path being the
  current one.\<close>

type_synonym 't fsys = "(path \<times> 't node) list"

datatype error =
    XCallError | SystemExit | IndexError | KeyError | AssertionError | UnboundLocalError
  | FileNotFoundError | FileExistsError | NotADirectoryError | IsADirectoryError
  | SameFileError | JSONDecodeError | UnicodeDecodeError

text \<open>The calls that change the file system, logged in the order they are made.\<close>

datatype 't event =
    Mkdir path
  | WriteJson path "'t note_info"
  | OpenW path
  | WriteLine path string
  | Copy path path
  | Touch path
  | Rename path path

record 't state =
  fs :: "'t fsys"
  nlist :: "string \<rightharpoonup> 't note_info"
  trace :: "'t event list"
  stdout :: "string list"

text \<open>
  Bear, reached through \<^verbatim>\<open>xcall\<close>: the answer to \<^verbatim>\<open>search\<close> (the list of notes in
  \<^verbatim>\<open>result["notes"]\<close>) and to \<^verbatim>\<open>open-note\<close> for an identifier (the lines
  \<^verbatim>\<open>result["note"].splitlines()\<close>). \<^verbatim>\<open>xcall\<close> raises \<^verbatim>\<open>XCallError\<close> or exits.
\<close>

record 't remote =
  search_notes :: "error + 't note_info list"
  open_note :: "string \<Rightarrow> error + string list"

section \<open>Computations that may raise\<close>

text \<open>A statement runs on the state and ends with a value or an exception; the state it
  leaves is kept in both cases (a write that happened before an exception stays).\<close>

type_synonym ('t, 'a) io = "'t state \<Rightarrow> (error + 'a) \<times> 't state"

definition ret :: "'a \<Rightarrow> ('t, 'a) io" where
  "ret x = (\<lambda>s. (Inr x, s))"

definition raise :: "error \<Rightarrow> ('t, 'a) io" where
  "raise e = (\<lambda>s. (Inl e, s))"

definition bindE :: "('t, 'a) io \<Rightarrow> ('a \<Rightarrow> ('t, 'b) io) \<Rightarrow> ('t, 'b) io" where
  "bindE m f = (\<lambda>s. case m s of (Inl e, s') \<Rightarrow> (Inl e, s') | (Inr x, s') \<Rightarrow> f x s')"

definition thenE :: "('t, 'a) io \<Rightarrow> ('t, 'b) io \<Rightarrow> ('t, 'b) io" where
  "thenE m k = bindE m (\<lambda>_. k)"

definition lift :: "error + 'a \<Rightarrow> ('t, 'a) io" where
  "lift r = (\<lambda>s. (r, s))"

primrec foldE :: "('b \<Rightarrow> 'a \<Rightarrow> ('t, 'b) io) \<Rightarrow> 'a list \<Rightarrow> 'b \<Rightarrow> ('t, 'b) io" where
  "foldE f [] acc = ret acc"
| "foldE f (x # xs) acc = bindE (f acc x) (foldE f xs)"

primrec forE :: "'a list \<Rightarrow> ('a \<Rightarrow> ('t, unit) io) \<Rightarrow> ('t, unit) io" where
  "forE [] f = ret ()"
| "forE (x # xs) f = thenE (f x) (forE xs f)"

definition print :: "string \<Rightarrow> ('t, unit) io" where
  "print msg = (\<lambda>s. (Inr (), s\<lparr>stdout := stdout s @ [msg]\<rparr>))"

definition log :: "'t event \<Rightarrow> ('t, unit) io" where
  "log ev = (\<lambda>s. (Inr (), s\<lparr>trace := trace s @ [ev]\<rparr>))"

section \<open>File system calls\<close>

definition lookup :: "'t fsys \<Rightarrow> path \<Rightarrow> 't node option" where
  "lookup f p = map_of f p"

definition path_exists :: "'t fsys \<Rightarrow> path \<Rightarrow> bool" where
  "path_exists f p = (lookup f p \<noteq> None)"

text \<open>The root is a directory.\<close>

definition is_dir :: "'t fsys \<Rightarrow> path \<Rightarrow> bool" where
  "is_dir f p = (p = [] \<or> lookup f p = Some Dir)"

definition put :: "path \<Rightarrow> 't node \<Rightarrow> ('t, unit) io" where
  "put p n = (\<lambda>s. (Inr (), s\<lparr>fs := (p, n) # fs s\<rparr>))"

text \<open>\<^verbatim>\<open>p.glob("*")\<close>: the names of the entries of the directory \<open>p\<close> (none when \<open>p\<close>
  does not exist).\<close>

definition glob :: "'t fsys \<Rightarrow> path \<Rightarrow> string list" where
  "glob f d = remdups (map (\<lambda>e. last (fst e)) (filter (\<lambda>e. fst e \<noteq> [] \<and> butlast (fst e) = d) f))"

text \<open>\<^verbatim>\<open>p.mkdir(parents=True, exist_ok=True)\<close>: every missing directory from the root
  down to \<open>p\<close> is made.\<close>

primrec mkdir_chain :: "path \<Rightarrow> string list \<Rightarrow> ('t, unit) io" where
  "mkdir_chain base [] = ret ()"
| "mkdir_chain base (c # cs) =
     (\<lambda>s. (case lookup (fs s) (base @ [c]) of
              None \<Rightarrow> thenE (put (base @ [c]) Dir) (mkdir_chain (base @ [c]) cs)
            | Some Dir \<Rightarrow> mkdir_chain (base @ [c]) cs
            | Some (File x) \<Rightarrow> raise (if cs = [] then FileExistsError else NotADirectoryError)) s)"

definition mkdir_parents :: "path \<Rightarrow> ('t, unit) io" where
  "mkdir_parents p = thenE (mkdir_chain [] p) (log (Mkdir p))"

text \<open>\<^verbatim>\<open>p.mkdir(exist_ok=True)\<close>\<close>

definition mkdir_exist_ok :: "path \<Rightarrow> ('t, unit) io" where
  "mkdir_exist_ok p =
     (\<lambda>s. (case lookup (fs s) p of
              Some Dir \<Rightarrow> ret ()
            | Some (File x) \<Rightarrow> raise FileExistsError
            | None \<Rightarrow>
                if is_dir (fs s) (butlast p) then thenE (put p Dir) (log (Mkdir p))
                else if path_exists (fs s) (butlast p) then raise NotADirectoryError
                else raise FileNotFoundError) s)"

text \<open>What \<^verbatim>\<open>open(p, "w")\<close> checks.\<close>

definition check_open_w :: "path \<Rightarrow> ('t, unit) io" where
  "check_open_w p =
     (\<lambda>s. (if lookup (fs s) p = Some Dir then raise IsADirectoryError
            else if is_dir (fs s) (butlast p) then ret ()
            else if path_exists (fs s) (butlast p) then raise NotADirectoryError
            else raise FileNotFoundError) s)"

text \<open>\<^verbatim>\<open>with open(p, "w") as outf: outf.write(json.dumps(note))\<close>\<close>

definition write_json :: "path \<Rightarrow> 't note_info \<Rightarrow> ('t, unit) io" where
  "write_json p n =
     thenE (check_open_w p) (thenE (put p (File (Json n))) (log (WriteJson p n)))"

text \<open>\<^verbatim>\<open>open(p, "w")\<close>: the file is made, or emptied.\<close>

definition open_w :: "path \<Rightarrow> ('t, unit) io" where
  "open_w p = thenE (check_open_w p) (thenE (put p (File (Text []))) (log (OpenW p)))"

text \<open>\<^verbatim>\<open>outf.write(line); outf.write("\n")\<close> on the file opened at \<open>p\<close>.\<close>

definition write_line :: "path \<Rightarrow> string \<Rightarrow> ('t, unit) io" where
  "write_line p l =
     (\<lambda>s. thenE (put p (File (Text ((case lookup (fs s) p of
                                        Some (File (Text ls)) \<Rightarrow> ls
                                      | _ \<Rightarrow> []) @ [l]))))
                 (log (WriteLine p l)) s)"

text \<open>\<^verbatim>\<open>shutil.copy(src, dst)\<close>: into \<open>dst\<close>, or into the file of the same name in
  \<open>dst\<close> when \<open>dst\<close> is a directory.\<close>

definition copy :: "path \<Rightarrow> path \<Rightarrow> ('t, unit) io" where
  "copy src dst =
     (\<lambda>s. (let target = (if is_dir (fs s) dst \<and> src \<noteq> [] then dst @ [last src] else dst)
            in case lookup (fs s) src of
                 None \<Rightarrow> raise FileNotFoundError
               | Some Dir \<Rightarrow> raise IsADirectoryError
               | Some (File x) \<Rightarrow>
                   if target = src then raise SameFileError
                   else thenE (check_open_w target)
                          (thenE (put target (File x)) (log (Copy src dst)))) s)"

text \<open>\<^verbatim>\<open>p.touch()\<close>: an existing entry keeps its content.\<close>

definition touch :: "path \<Rightarrow> ('t, unit) io" where
  "touch p =
     (\<lambda>s. (if path_exists (fs s) p then log (Touch p)
            else thenE (check_open_w p) (thenE (put p (File (Text []))) (log (Touch p)))) s)"

text \<open>\<^verbatim>\<open>src.rename(dst)\<close> where \<open>dst\<close> does not exist: the entry \<open>src\<close> and everything
  below it moves to \<open>dst\<close>.\<close>

definition rename_entries :: "path \<Rightarrow> path \<Rightarrow> 't fsys \<Rightarrow> 't fsys" where
  "rename_entries src dst f =
     map (\<lambda>e. if prefix src (fst e) then (dst @ drop (length src) (fst e), snd e) else e)
       (filter (\<lambda>e. \<not> prefix dst (fst e)) f)"

definition rename :: "path \<Rightarrow> path \<Rightarrow> ('t, unit) io" where
  "rename src dst =
     (\<lambda>s. (if \<not> path_exists (fs s) src then raise FileNotFoundError
            else if is_dir (fs s) (butlast dst) then
              thenE (\<lambda>s'. (Inr (), s'\<lparr>fs := rename_entries src dst (fs s')\<rparr>))
                (log (Rename src dst))
            else if path_exists (fs s) (butlast dst) then raise NotADirectoryError
            else raise FileNotFoundError) s)"

text \<open>
  \<^verbatim>\<open>with open(p, "r") as json_file: meta = json.load(json_file)\<close>. Two raises are
  named more coarsely than Python names them: a path below a regular file is reported
  as a missing file (\<^verbatim>\<open>open\<close> raises \<^verbatim>\<open>NotADirectoryError\<close> there), and every file that is
  not the dump of a note counts as no JSON (a JSON text without the key read next would
  pass \<^verbatim>\<open>json.load\<close> and raise \<^verbatim>\<open>KeyError\<close> at the key). The same holds of the path in
  \<open>read_lines\<close>. Whether the call raises is as in the source.
\<close>

definition read_json :: "path \<Rightarrow> ('t, 't note_info) io" where
  "read_json p =
     (\<lambda>s. (case lookup (fs s) p of
              None \<Rightarrow> raise FileNotFoundError
            | Some Dir \<Rightarrow> raise IsADirectoryError
            | Some (File (Json n)) \<Rightarrow> ret n
            | Some (File x) \<Rightarrow> raise JSONDecodeError) s)"

text \<open>\<^verbatim>\<open>with open(p, "r") as inf: note = inf.read().splitlines()\<close>\<close>

definition read_lines :: "path \<Rightarrow> ('t, string list) io" where
  "read_lines p =
     (\<lambda>s. (case lookup (fs s) p of
              None \<Rightarrow> raise FileNotFoundError
            | Some Dir \<Rightarrow> raise IsADirectoryError
            | Some (File (Text ls)) \<Rightarrow> ret ls
            | Some (File x) \<Rightarrow> raise UnicodeDecodeError) s)"

section \<open>The program\<close>

definition xcall_search :: "'t remote \<Rightarrow> ('t, 't note_info list) io" where
  "xcall_search r = lift (search_notes r)"

definition xcall_open_note :: "'t remote \<Rightarrow> string \<Rightarrow> ('t, string list) io" where
  "xcall_open_note r ident = lift (open_note r ident)"

subsection \<open>\<^verbatim>\<open>NoteDB._synchronise_attachment\<close>\<close>

text \<open>\<^verbatim>\<open>b\<close>, \<^verbatim>\<open>e\<close> and \<^verbatim>\<open>s\<close> of the source, then \<^verbatim>\<open>f = line[b:e]\<close> and \<^verbatim>\<open>line[s:e]\<close>.\<close>

definition attachment_b :: "string \<Rightarrow> string \<Rightarrow> int" where
  "attachment_b atype line = py_find line (''['' @ atype @ '':'') 0 + int (length atype) + 2"

definition attachment_e :: "string \<Rightarrow> string \<Rightarrow> int" where
  "attachment_e atype line = py_find line '']'' (nat (attachment_b atype line))"

definition attachment_s :: "string \<Rightarrow> string \<Rightarrow> int" where
  "attachment_s atype line = py_find line ''/'' (nat (attachment_b atype line)) + 1"

definition attachment_f :: "string \<Rightarrow> string \<Rightarrow> string" where
  "attachment_f atype line = py_slice line (attachment_b atype line) (attachment_e atype line)"

definition attachment_name :: "string \<Rightarrow> string \<Rightarrow> string" where
  "attachment_name atype line = py_slice line (attachment_s atype line) (attachment_e atype line)"

definition synchronise_attachment :: "string \<Rightarrow> path \<Rightarrow> string \<Rightarrow> ('t, unit) io" where
  "synchronise_attachment atype path line =
     (if attachment_name atype line = ''note.md'' then raise AssertionError
      else if atype = ''file'' then
        thenE (copy (pjoin (Path FILES_DIR) (attachment_f atype line))
                 (pjoin path (attachment_name atype line)))
          (print (''             '' @ attachment_name atype line))
      else if atype = ''image'' then
        thenE (copy (pjoin (Path IMAGE_DIR) (attachment_f atype line))
                 (pjoin path (attachment_name atype line)))
          (print (''             '' @ attachment_name atype line))
      else raise UnboundLocalError)"

subsection \<open>\<^verbatim>\<open>NoteDB._synchronise_note\<close>\<close>

text \<open>The body of \<^verbatim>\<open>for line in content\<close>.\<close>

definition synchronise_line :: "path \<Rightarrow> string \<Rightarrow> ('t, unit) io" where
  "synchronise_line path line =
     thenE (write_line (path @ [''note.md'']) line)
       (thenE (if py_in ''[file:'' line then synchronise_attachment ''file'' path line
               else ret ())
          (if py_in ''[image:'' line then synchronise_attachment ''image'' path line
           else ret ()))"

definition synchronise_note ::
  "'t remote \<Rightarrow> 't note_info \<Rightarrow> path \<Rightarrow> string \<Rightarrow> ('t, unit) io" where
  "synchronise_note r note path ident =
     thenE (print (''synchronise: '' @ title note))
       (thenE (mkdir_parents path)
          (thenE (write_json (path @ [''note.json'']) note)
             (thenE (open_w (path @ [''note.md'']))
                (bindE (xcall_open_note r ident)
                   (\<lambda>content. forE content (synchronise_line path))))))"

text \<open>\<^verbatim>\<open>self._synchronise_note(note, path, ident); done.touch()\<close>, as both loops of
  \<^verbatim>\<open>synchronise\<close> run it, with \<^verbatim>\<open>done = path / ".done"\<close>.\<close>

definition synchronise_note_done ::
  "'t remote \<Rightarrow> 't note_info \<Rightarrow> path \<Rightarrow> string \<Rightarrow> ('t, unit) io" where
  "synchronise_note_done r note path ident =
     thenE (synchronise_note r note path ident) (touch (path @ [''.done'']))"

subsection \<open>\<^verbatim>\<open>NoteDB.note_exists\<close>, \<^verbatim>\<open>note_contents\<close>, \<^verbatim>\<open>note_links\<close>\<close>

definition note_exists :: "'t state \<Rightarrow> string \<Rightarrow> bool" where
  "note_exists s note_id = (note_id \<in> dom (nlist s))"

text \<open>The directory \<^verbatim>\<open>Path(F"{BACKUP_DIR}/active/{note_id}/")\<close>.\<close>

definition note_dir :: "string \<Rightarrow> path" where
  "note_dir note_id = Path (BACKUP_DIR @ ''/active/'' @ note_id @ ''/'')"

definition note_contents :: "string \<Rightarrow> ('t, string list) io" where
  "note_contents note_id =
     (\<lambda>s. (let note_dates = sort (glob (fs s) (note_dir note_id))
            in if note_dates = [] then raise IndexError
               else read_lines (note_dir note_id @ [last note_dates, ''note.md''])) s)"

text \<open>Where \<open>find0\<close> finds \<open>sub\<close>, it is there, and it fits in the line.\<close>

lemma find0_Some_prefix: "find0 sub xs = Some j \<Longrightarrow> prefix sub (drop j xs)"
  by (induction xs arbitrary: j) (auto split: if_splits)

lemma find0_Some_bound: "find0 sub xs = Some j \<Longrightarrow> j + length sub \<le> length xs"
proof -
  assume "find0 sub xs = Some j"
  then have "prefix sub (drop j xs)" by (rule find0_Some_prefix)
  then have "length sub \<le> length (drop j xs)" by (rule prefix_length_le)
  moreover have "sub = [] \<or> sub \<noteq> []" by simp
  moreover have "find0 sub xs = Some j \<Longrightarrow> j \<le> length xs"
    by (induction xs arbitrary: j) (auto split: if_splits)
  ultimately show ?thesis using \<open>find0 sub xs = Some j\<close> by auto
qed

lemma py_find_bounds:
  "py_find line sub start \<noteq> - 1 \<Longrightarrow>
     int start \<le> py_find line sub start \<and> py_find line sub start + int (length sub) \<le> int (length line)"
  by (auto simp: py_find_def split: if_splits option.splits dest!: find0_Some_bound)

text \<open>The loop \<^verbatim>\<open>while found\<close> of \<^verbatim>\<open>note_links\<close> on one line, from \<open>offset\<close>, with the
  links found so far; \<open>None\<close> is the branch that prints the error and calls
  \<^verbatim>\<open>sys.exit()\<close>.\<close>

text \<open>\<^verbatim>\<open>if not link in links: links.append(link)\<close>\<close>

definition add_link :: "string list \<Rightarrow> string \<Rightarrow> string list" where
  "add_link links link = (if link \<in> set links then links else links @ [link])"

function scan_links :: "string \<Rightarrow> nat \<Rightarrow> string list \<Rightarrow> string list option" where
  "scan_links line offset links =
     (if py_find line ''[['' offset = - 1 then Some links
      else if py_find line '']]'' (nat (py_find line ''[['' offset)) = - 1 then None
      else scan_links line
             (nat (py_find line '']]'' (nat (py_find line ''[['' offset)) + 2))
             (add_link links
                (py_slice line (py_find line ''[['' offset + 2)
                   (py_find line '']]'' (nat (py_find line ''[['' offset))))))"
  by pat_completeness auto
termination
proof (relation "measure (\<lambda>(line, offset, links). length line - offset)")
  show "wf (measure (\<lambda>(line, offset, links). length line - offset))" by simp
next
  fix line :: string and offset :: nat and links :: "string list"
  assume a: "py_find line ''[['' offset \<noteq> - 1"
    and b: "py_find line '']]'' (nat (py_find line ''[['' offset)) \<noteq> - 1"
  have 1: "int offset \<le> py_find line ''[['' offset"
    using py_find_bounds [OF a] by simp
  have 2: "int (nat (py_find line ''[['' offset)) \<le> py_find line '']]'' (nat (py_find line ''[['' offset))"
    and 3: "py_find line '']]'' (nat (py_find line ''[['' offset)) + 2 \<le> int (length line)"
    using py_find_bounds [OF b] by simp_all
  show "((line, nat (py_find line '']]'' (nat (py_find line ''[['' offset)) + 2),
          add_link links
            (py_slice line (py_find line ''[['' offset + 2)
               (py_find line '']]'' (nat (py_find line ''[['' offset))))),
         line, offset, links)
        \<in> measure (\<lambda>(line, offset, links). length line - offset)"
    using 1 2 3 by auto
qed

text \<open>The loop \<^verbatim>\<open>for line in self.note_contents(note_id)\<close>; \<open>Inl line\<close> is the exit,
  with the line that has the unterminated link.\<close>

primrec links_of_lines :: "string list \<Rightarrow> string list \<Rightarrow> string + string list" where
  "links_of_lines [] links = Inr links"
| "links_of_lines (line # rest) links =
     (case scan_links line 0 links of
        None \<Rightarrow> Inl line
      | Some links' \<Rightarrow> links_of_lines rest links')"

definition note_links :: "string \<Rightarrow> ('t, string list) io" where
  "note_links note_id =
     bindE (note_contents note_id)
       (\<lambda>content. case links_of_lines content [] of
                     Inl line \<Rightarrow>
                       thenE (print (''ERROR: unterminated link in note '' @ note_id))
                         (thenE (print (''  '' @ line)) (raise SystemExit))
                   | Inr links \<Rightarrow> ret links)"

subsection \<open>\<^verbatim>\<open>NoteDB.synchronise\<close>\<close>

text \<open>\<^verbatim>\<open>Path(BACKUP_DIR) / "active" / ident / mdate\<close>\<close>

definition snapshot_path :: "string \<Rightarrow> string \<Rightarrow> path" where
  "snapshot_path ident mdate = pjoin (pjoin (pjoin (Path BACKUP_DIR) ''active'') ident) mdate"

text \<open>
  Lines 132 to 148: the tags of the backup at \<open>path\<close> against the tags of the note, or,
  when \<open>path\<close> has no \<^verbatim>\<open>note.json\<close>, the title of the latest backup against the title of
  the note. The result is \<^verbatim>\<open>tags_changed\<close> and the list \<^verbatim>\<open>title_changed\<close>.
\<close>

definition compare_backup ::
  "('t::linorder) note_info \<Rightarrow> path \<Rightarrow> string list \<Rightarrow> ('t, bool \<times> string list) io" where
  "compare_backup note path title_changed =
     (\<lambda>s. (if path_exists (fs s) (path @ [''note.json'']) then
              bindE (read_json (path @ [''note.json'']))
                (\<lambda>meta. ret (sort (tags meta) \<noteq> sort (tags note), title_changed))
            else if sort (glob (fs s) (note_dir (identifier note))) \<noteq> [] then
              bindE (read_json (note_dir (identifier note) @
                       [last (sort (glob (fs s) (note_dir (identifier note)))), ''note.json'']))
                (\<lambda>meta. if title meta \<noteq> title note then
                           thenE (print (''titleChange: '' @ title meta @ '' -> '' @ title note))
                             (ret (False, title_changed @ [title meta]))
                         else ret (False, title_changed))
            else ret (False, title_changed)) s)"

text \<open>The body of \<^verbatim>\<open>for note in nlist\<close> (lines 125 to 153), on the lists
  \<^verbatim>\<open>title_changed\<close> and \<^verbatim>\<open>active\<close>.\<close>

definition synchronise_step ::
  "('t::linorder) remote \<Rightarrow> string list \<times> string list \<Rightarrow> 't note_info \<Rightarrow>
     ('t, string list \<times> string list) io" where
  "synchronise_step r acc note =
     (let ident = identifier note;
          mdate = replace_colon (modificationDate note);
          path = snapshot_path ident mdate
      in thenE (\<lambda>s. (Inr (), s\<lparr>nlist := (nlist s)(ident \<mapsto> note)\<rparr>))
           (bindE (compare_backup note path (fst acc))
              (\<lambda>c. thenE
                      (\<lambda>s. (if \<not> path_exists (fs s) (path @ [''.done'']) \<or> fst c
                             then synchronise_note_done r note path ident
                             else ret ()) s)
                      (ret (snd c, snd acc @ [ident])))))"

text \<open>The body of \<^verbatim>\<open>for ident in active\<close> (lines 161 to 168).\<close>

definition synchronise_links ::
  "'t remote \<Rightarrow> string list \<Rightarrow> string \<Rightarrow> ('t, unit) io" where
  "synchronise_links r title_changed ident =
     bindE (note_links ident)
       (\<lambda>links. forE links
          (\<lambda>link. if link \<in> set title_changed then
                     (\<lambda>s. (case nlist s ident of
                              None \<Rightarrow> raise KeyError
                            | Some note \<Rightarrow>
                                synchronise_note_done r note
                                  (snapshot_path ident (replace_colon (modificationDate note)))
                                  ident) s)
                   else ret ()))"

text \<open>The body of \<^verbatim>\<open>for note in Path(F"{BACKUP_DIR}/active").glob("*")\<close> (lines 172 to
  181), for the entry named \<open>name\<close>.\<close>

definition active_dir :: path where
  "active_dir = Path (BACKUP_DIR @ ''/active'')"

definition deleted_dir :: path where
  "deleted_dir = pjoin (Path BACKUP_DIR) ''deleted''"

definition remove_deleted_note :: "string list \<Rightarrow> string \<Rightarrow> ('t, unit) io" where
  "remove_deleted_note active name =
     thenE (mkdir_exist_ok deleted_dir)
       (if name \<notin> set active then
          (\<lambda>s. (if path_exists (fs s) (deleted_dir @ [name]) then
                   print (''ERROR: deleted note was already deleted? '' @ name)
                 else
                   thenE (rename (pjoin (Path BACKUP_DIR) ''active'' @ [name])
                            (deleted_dir @ [name]))
                     (print (name @ '' deleted''))) s)
        else ret ())"

definition remove_deleted :: "string list \<Rightarrow> ('t, unit) io" where
  "remove_deleted active = (\<lambda>s. forE (glob (fs s) active_dir) (remove_deleted_note active) s)"

text \<open>\<^verbatim>\<open>synchronise\<close> up to the comment \<^verbatim>\<open># Remove deleted notes\<close>: the result is the
  list \<^verbatim>\<open>active\<close>.\<close>

definition synchronise_notes :: "('t::linorder) remote \<Rightarrow> ('t, string list) io" where
  "synchronise_notes r =
     thenE (\<lambda>s. (Inr (), s\<lparr>nlist := Map.empty\<rparr>))
       (bindE (xcall_search r)
          (\<lambda>nl. bindE (foldE (synchronise_step r) nl ([], []))
                   (\<lambda>acc. thenE (forE (snd acc) (synchronise_links r (fst acc)))
                            (ret (snd acc)))))"

definition synchronise :: "('t::linorder) remote \<Rightarrow> ('t, unit) io" where
  "synchronise r = bindE (synchronise_notes r) remove_deleted"

section \<open>What the specification says of link extraction\<close>

text \<open>\<open>sub\<close> occurs in \<open>line\<close> at index \<open>i\<close>.\<close>

definition occurs :: "string \<Rightarrow> string \<Rightarrow> nat \<Rightarrow> bool" where
  "occurs sub line i = (i + length sub \<le> length line \<and> take (length sub) (drop i line) = sub)"

text \<open>An opening delimiter with no closing delimiter later on the same line.\<close>

definition unterminated :: "string \<Rightarrow> bool" where
  "unterminated line =
     (\<exists>i \<in> set [0..<Suc (length line)].
        occurs ''[['' line i \<and> (\<forall>j \<in> set [i..<Suc (length line)]. \<not> occurs '']]'' line j))"

text \<open>
  The titles of a line, as the specification describes them: the line is read from the
  left; outside a link (\<open>None\<close>) the next \<^verbatim>\<open>[[\<close> opens one, inside a link (\<open>Some acc\<close>,
  \<open>acc\<close> the characters read since the opening delimiter, last first) the next \<^verbatim>\<open>]]\<close>
  closes it and gives the title. Delimiter pairs do not overlap.
\<close>

fun scan_titles :: "string option \<Rightarrow> string \<Rightarrow> string list" where
  "scan_titles None (a # b # cs) =
     (if a = CHR ''['' \<and> b = CHR ''['' then scan_titles (Some []) cs
      else scan_titles None (b # cs))"
| "scan_titles (Some acc) (a # b # cs) =
     (if a = CHR '']'' \<and> b = CHR '']'' then rev acc # scan_titles None cs
      else scan_titles (Some (a # acc)) (b # cs))"
| "scan_titles m cs = []"

definition link_titles :: "string \<Rightarrow> string list" where
  "link_titles line = scan_titles None line"

text \<open>The unique elements of a list, in the order of their first occurrence.\<close>

fun first_seen :: "'a list \<Rightarrow> 'a list" where
  "first_seen [] = []"
| "first_seen (x # xs) = x # filter (\<lambda>y. y \<noteq> x) (first_seen xs)"

section \<open>What a fetch writes\<close>

text \<open>The snapshot directory of a note: \<^verbatim>\<open>path\<close> in both loops of \<^verbatim>\<open>synchronise\<close>.\<close>

definition note_path :: "'t note_info \<Rightarrow> path" where
  "note_path note = snapshot_path (identifier note) (replace_colon (modificationDate note))"

text \<open>
  The copies \<^verbatim>\<open>_synchronise_attachment\<close> makes for one line: for each kind of marker the
  line contains, the attachment that the first marker of that kind names (\<^verbatim>\<open>line.find\<close>
  from 0, lines 85 to 97), the file before the image.
\<close>

definition first_copies :: "path \<Rightarrow> string \<Rightarrow> 't event list" where
  "first_copies path line =
     (if py_in ''[file:'' line
      then [Copy (pjoin (Path FILES_DIR) (attachment_f ''file'' line))
              (pjoin path (attachment_name ''file'' line))]
      else []) @
     (if py_in ''[image:'' line
      then [Copy (pjoin (Path IMAGE_DIR) (attachment_f ''image'' line))
              (pjoin path (attachment_name ''image'' line))]
      else [])"

text \<open>The calls the program makes for one line of the content: the line is written,
  then the copy for its first file marker is made, then the copy for its first image
  marker.\<close>

definition line_events :: "path \<Rightarrow> string \<Rightarrow> 't event list" where
  "line_events path line =
     WriteLine (path @ [''note.md'']) line #
     (if py_in ''[file:'' line
      then [Copy (pjoin (Path FILES_DIR) (attachment_f ''file'' line))
              (pjoin path (attachment_name ''file'' line))]
      else []) @
     (if py_in ''[image:'' line
      then [Copy (pjoin (Path IMAGE_DIR) (attachment_f ''image'' line))
              (pjoin path (attachment_name ''image'' line))]
      else [])"

text \<open>The calls of a fetch that runs to its end.\<close>

definition fetch_events :: "path \<Rightarrow> 't note_info \<Rightarrow> string list \<Rightarrow> 't event list" where
  "fetch_events path note content =
     [Mkdir path, WriteJson (path @ [''note.json'']) note, OpenW (path @ [''note.md''])] @
     concat (map (line_events path) content) @ [Touch (path @ [''.done''])]"

fun is_touch :: "'t event \<Rightarrow> bool" where
  "is_touch (Touch p) = True"
| "is_touch ev = False"

fun is_copy :: "'t event \<Rightarrow> bool" where
  "is_copy (Copy src dst) = True"
| "is_copy ev = False"

fun is_write_line :: "'t event \<Rightarrow> bool" where
  "is_write_line (WriteLine p l) = True"
| "is_write_line ev = False"

text \<open>
  The calls for one line of the content in a fetch whose order is as designed: the write
  of the line, followed by copies only, the copies for the first marker of each kind
  among them. Whether the attachments of further markers of the line are copied is
  left open.
\<close>

definition line_calls :: "path \<Rightarrow> string \<Rightarrow> 't event list \<Rightarrow> bool" where
  "line_calls path line evs =
     (case evs of
        [] \<Rightarrow> False
      | ev # copies \<Rightarrow>
          ev = WriteLine (path @ [''note.md'']) line \<and> list_all is_copy copies \<and>
          list_all (\<lambda>c. c \<in> set copies) (first_copies path line))"

text \<open>A call of \<^verbatim>\<open>shutil.copy\<close> that may have written the path \<open>q\<close>: its destination
  is \<open>q\<close>, or \<open>q\<close> is the file named as the source inside the destination.\<close>

fun copy_onto :: "path \<Rightarrow> 't event \<Rightarrow> bool" where
  "copy_onto q (Copy src dst) = (dst = q \<or> (src \<noteq> [] \<and> dst @ [last src] = q))"
| "copy_onto q ev = False"

text \<open>The order as the specification words it: the text content, then the attachments,
  that is, no line is written after an attachment was copied.\<close>

fun text_then_attachments :: "'t event list \<Rightarrow> bool" where
  "text_then_attachments [] = True"
| "text_then_attachments (ev # evs) =
     ((is_copy ev \<longrightarrow> \<not> list_ex is_write_line evs) \<and> text_then_attachments evs)"

text \<open>
  The tag names that a value of \<^verbatim>\<open>tags\<close> lists, for a value written as Bear writes it,
  such as \<^verbatim>\<open>["work", "home"]\<close>: the texts between one quotation mark and the next. The
  program never reads the names; they say which tag set a string stands for.
\<close>

fun quoted :: "string option \<Rightarrow> string \<Rightarrow> string list" where
  "quoted w [] = []"
| "quoted None (c # cs) = (if c = CHR 0x22 then quoted (Some []) cs else quoted None cs)"
| "quoted (Some w) (c # cs) =
     (if c = CHR 0x22 then w # quoted None cs else quoted (Some (w @ [c])) cs)"

definition tag_names :: "string \<Rightarrow> string list" where
  "tag_names s = quoted None s"

text \<open>The metadata of the latest entry of an identifier in the active area: what lines
  141 to 145 read, when the entry has a \<^verbatim>\<open>note.json\<close> that \<^verbatim>\<open>json.load\<close> accepts.\<close>

definition latest_meta :: "'t fsys \<Rightarrow> string \<Rightarrow> 't note_info option" where
  "latest_meta f ident =
     (if glob f (note_dir ident) = [] then None
      else case lookup f (note_dir ident @ [last (sort (glob f (note_dir ident))), ''note.json'']) of
             Some (File (Json meta)) \<Rightarrow> Some meta
           | _ \<Rightarrow> None)"

section \<open>What deletion reconciliation leaves\<close>

text \<open>The area of deleted notes is a directory, or it does not exist yet and the backup
  directory does: \<^verbatim>\<open>del_dir.mkdir(exist_ok=True)\<close> then returns.\<close>

definition deleted_area_ok :: "'t fsys \<Rightarrow> bool" where
  "deleted_area_ok f =
     (lookup f deleted_dir = Some Dir \<or>
      (lookup f deleted_dir = None \<and> is_dir f (Path BACKUP_DIR)))"

text \<open>The message of line 178.\<close>

definition already_deleted :: "string \<Rightarrow> string" where
  "already_deleted name = ''ERROR: deleted note was already deleted? '' @ name"

text \<open>The entry \<open>name\<close> of the active area and the entry \<open>name\<close> of the deleted area,
  with everything below them, are in \<open>f'\<close> what they are in \<open>f\<close>.\<close>

definition same_history :: "'t fsys \<Rightarrow> 't fsys \<Rightarrow> string \<Rightarrow> bool" where
  "same_history f f' name =
     (\<forall>rest. lookup f' (active_dir @ name # rest) = lookup f (active_dir @ name # rest) \<and>
             lookup f' (deleted_dir @ name # rest) = lookup f (deleted_dir @ name # rest))"

text \<open>The entry \<open>name\<close> of the active area of \<open>f\<close>, with everything below it, is in \<open>f'\<close>
  the entry \<open>name\<close> of the deleted area, and the active area of \<open>f'\<close> has no such entry.\<close>

definition moved_history :: "'t fsys \<Rightarrow> 't fsys \<Rightarrow> string \<Rightarrow> bool" where
  "moved_history f f' name =
     (\<forall>rest. lookup f' (deleted_dir @ name # rest) = lookup f (active_dir @ name # rest) \<and>
             lookup f' (active_dir @ name # rest) = None)"

section \<open>Example stores\<close>

definition empty_state :: "string state" where
  "empty_state = \<lparr>fs = [], nlist = Map.empty, trace = [], stdout = []\<rparr>"

text \<open>A store with one note \<^verbatim>\<open>X\<close>, whose only snapshot \<^verbatim>\<open>T1\<close> has the given lines.\<close>

definition links_state :: "string list \<Rightarrow> string state" where
  "links_state content =
     \<lparr>fs = [(note_dir ''X'' @ [''T1'', ''note.md''], File (Text content)),
             (note_dir ''X'' @ [''T1''], Dir), (note_dir ''X'', Dir)],
      nlist = Map.empty, trace = [], stdout = []\<rparr>"

text \<open>A note with an attachment in its first line.\<close>

definition attach_note :: "string note_info" where
  "attach_note = \<lparr>identifier = ''N'', title = ''Note'', tags = [], modificationDate = ''T:1'',
     creationDate = ''T:0'', pin = ''no''\<rparr>"

definition attach_remote :: "string remote" where
  "attach_remote = \<lparr>search_notes = Inr [attach_note],
     open_note = (\<lambda>ident. Inr [''[file:U/x.pdf]'', ''second line''])\<rparr>"

definition attach_state :: "string state" where
  "attach_state = \<lparr>fs = [(Path FILES_DIR @ [''U'', ''x.pdf''], File (Data 0))],
     nlist = Map.empty, trace = [], stdout = []\<rparr>"

text \<open>
  A note whose first line names an attachment called \<^verbatim>\<open>.done\<close> and whose second line names
  an attachment that Bear's store does not hold; and a note with two file markers in one
  line.
\<close>

definition marker_copy_remote :: "string remote" where
  "marker_copy_remote = \<lparr>search_notes = Inr [attach_note],
     open_note = (\<lambda>ident. Inr [''[file:U/.done]'', ''[file:U/y.pdf]''])\<rparr>"

definition marker_copy_state :: "string state" where
  "marker_copy_state = \<lparr>fs = [(Path FILES_DIR @ [''U'', ''.done''], File (Data 1))],
     nlist = Map.empty, trace = [], stdout = []\<rparr>"

definition two_files_remote :: "string remote" where
  "two_files_remote = \<lparr>search_notes = Inr [attach_note],
     open_note = (\<lambda>ident. Inr [''[file:U/x.pdf] and [file:U/y.pdf]''])\<rparr>"

definition two_files_state :: "string state" where
  "two_files_state = \<lparr>fs = [(Path FILES_DIR @ [''U'', ''y.pdf''], File (Data 1)),
                             (Path FILES_DIR @ [''U'', ''x.pdf''], File (Data 0))],
     nlist = Map.empty, trace = [], stdout = []\<rparr>"

text \<open>
  The tags as the string Bear sends: note \<^verbatim>\<open>X\<close> carries the one tag \<^verbatim>\<open>ab\<close> and has a
  complete snapshot; then the tag is renamed to \<^verbatim>\<open>ba\<close>, or to \<^verbatim>\<open>ac\<close>, and Bear returns the
  note at the same modification time.
\<close>

definition ab_note :: "char note_info" where
  "ab_note = \<lparr>identifier = ''X'', title = ''Note'', tags = ''[\"ab\"]'', modificationDate = ''T1'',
     creationDate = ''T0'', pin = ''no''\<rparr>"

definition ba_note :: "char note_info" where
  "ba_note = ab_note\<lparr>tags := ''[\"ba\"]''\<rparr>"

definition ac_note :: "char note_info" where
  "ac_note = ab_note\<lparr>tags := ''[\"ac\"]''\<rparr>"

definition ab_remote :: "char remote" where
  "ab_remote = \<lparr>search_notes = Inr [ab_note], open_note = (\<lambda>ident. Inr [''text''])\<rparr>"

definition ba_remote :: "char remote" where
  "ba_remote = \<lparr>search_notes = Inr [ba_note], open_note = (\<lambda>ident. Inr [''text''])\<rparr>"

definition ac_remote :: "char remote" where
  "ac_remote = \<lparr>search_notes = Inr [ac_note], open_note = (\<lambda>ident. Inr [''text''])\<rparr>"

definition no_files :: "char state" where
  "no_files = \<lparr>fs = [], nlist = Map.empty, trace = [], stdout = []\<rparr>"

definition ab_state :: "char state" where
  "ab_state =
     \<lparr>fs = [(note_path ab_note @ [''.done''], File (Text [])),
             (note_path ab_note @ [''note.md''], File (Text [''text''])),
             (note_path ab_note @ [''note.json''], File (Json ab_note)),
             (note_path ab_note, Dir), (note_dir ''X'', Dir),
             (deleted_dir, Dir), (active_dir, Dir), (Path BACKUP_DIR, Dir),
             ([''Users'', ''csp'', ''Backups''], Dir), ([''Users'', ''csp''], Dir),
             ([''Users''], Dir)],
      nlist = Map.empty, trace = [], stdout = []\<rparr>"

text \<open>Note \<^verbatim>\<open>X\<close> with title \<^verbatim>\<open>Old\<close> and no tag, as Bear lists it.\<close>

definition old_note :: "string note_info" where
  "old_note = \<lparr>identifier = ''X'', title = ''Old'', tags = [], modificationDate = ''T1'',
     creationDate = ''T0'', pin = ''no''\<rparr>"

definition old_remote :: "string remote" where
  "old_remote = \<lparr>search_notes = Inr [old_note], open_note = (\<lambda>ident. Inr [''text''])\<rparr>"

text \<open>
  A renamed note and a note that links to it: \<^verbatim>\<open>A\<close> (title \<^verbatim>\<open>Old\<close>) and \<^verbatim>\<open>B\<close>, whose text
  is \<^verbatim>\<open>see [[Old]]\<close>, are backed up by a first pass; then \<^verbatim>\<open>A\<close> comes back with the title
  \<^verbatim>\<open>New\<close> and a later modification time, and \<^verbatim>\<open>B\<close> as it was.
\<close>

definition note_a :: "string note_info" where
  "note_a = \<lparr>identifier = ''A'', title = ''Old'', tags = [], modificationDate = ''T1'',
     creationDate = ''T0'', pin = ''no''\<rparr>"

definition note_a' :: "string note_info" where
  "note_a' = note_a\<lparr>title := ''New'', modificationDate := ''T2''\<rparr>"

definition note_b :: "string note_info" where
  "note_b = \<lparr>identifier = ''B'', title = ''Bee'', tags = [''t''], modificationDate = ''T1'',
     creationDate = ''T0'', pin = ''no''\<rparr>"

definition link_remote :: "string remote" where
  "link_remote = \<lparr>search_notes = Inr [note_a, note_b],
     open_note = (\<lambda>ident. if ident = ''A'' then Inr [''alpha''] else Inr [''see [[Old]]''])\<rparr>"

definition rename_remote :: "string remote" where
  "rename_remote = \<lparr>search_notes = Inr [note_a', note_b],
     open_note = (\<lambda>ident. if ident = ''A'' then Inr [''alpha''] else Inr [''see [[New]]''])\<rparr>"

text \<open>The entries of a complete snapshot of a note, and the directories above the
  snapshots, as a pass leaves them.\<close>

definition snapshot :: "string note_info \<Rightarrow> string list \<Rightarrow> string fsys" where
  "snapshot n content =
     [(note_path n @ [''.done''], File (Text [])),
      (note_path n @ [''note.md''], File (Text content)),
      (note_path n @ [''note.json''], File (Json n)),
      (note_path n, Dir), (note_dir (identifier n), Dir)]"

definition backup_dirs :: "string fsys" where
  "backup_dirs =
     [(deleted_dir, Dir), (active_dir, Dir), (Path BACKUP_DIR, Dir),
      ([''Users'', ''csp'', ''Backups''], Dir), ([''Users'', ''csp''], Dir), ([''Users''], Dir)]"

text \<open>The store after the first pass, and after the pass that saw the new title.\<close>

definition link_state :: "string state" where
  "link_state =
     \<lparr>fs = snapshot note_b [''see [[Old]]''] @ snapshot note_a [''alpha''] @ backup_dirs,
      nlist = Map.empty, trace = [], stdout = []\<rparr>"

definition renamed_state :: "string state" where
  "renamed_state =
     \<lparr>fs = snapshot note_b [''see [[New]]''] @ snapshot note_a' [''alpha''] @
            snapshot note_a [''alpha''] @ backup_dirs,
      nlist = Map.empty, trace = [], stdout = []\<rparr>"

text \<open>A store in which a fetch of \<^verbatim>\<open>X\<close> stopped after \<^verbatim>\<open>path.mkdir\<close>, and one in which it
  stopped after \<^verbatim>\<open>open(path / "note.json", "w")\<close>.\<close>

definition mkdir_only_state :: "string state" where
  "mkdir_only_state = snd (mkdir_parents (note_path old_note) empty_state)"

definition empty_json_state :: "string state" where
  "empty_json_state =
     mkdir_only_state\<lparr>fs := (note_path old_note @ [''note.json''], File (Text [])) # fs mkdir_only_state\<rparr>"

text \<open>Bear lists \<^verbatim>\<open>B\<close> alone: \<^verbatim>\<open>A\<close> was deleted there.\<close>

definition only_b_remote :: "string remote" where
  "only_b_remote = \<lparr>search_notes = Inr [note_b], open_note = (\<lambda>ident. Inr [''see [[Old]]''])\<rparr>"

text \<open>A store in which \<^verbatim>\<open>A\<close> has a history in the active area and another one in the
  deleted area.\<close>

definition dup_state :: "string state" where
  "dup_state =
     \<lparr>fs = [(active_dir @ [''A'', ''T2'', ''note.md''], File (Text [''new''])),
             (active_dir @ [''A'', ''T2''], Dir), (active_dir @ [''A''], Dir),
             (deleted_dir @ [''A'', ''T1'', ''note.md''], File (Text [''old''])),
             (deleted_dir @ [''A'', ''T1''], Dir), (deleted_dir @ [''A''], Dir),
             (deleted_dir, Dir), (active_dir, Dir), (Path BACKUP_DIR, Dir)],
      nlist = Map.empty, trace = [], stdout = []\<rparr>"


text \<open>Two stores hold the same files when every path of either has the same entry in
  both.\<close>

definition same_files :: "'t fsys \<Rightarrow> 't fsys \<Rightarrow> bool" where
  "same_files f g = list_all (\<lambda>p. lookup f p = lookup g p) (map fst f @ map fst g)"

section \<open>Sequencing\<close>

lemma bindE_Inr:
  "bindE m f s = (Inr y, s') \<longleftrightarrow> (\<exists>x s1. m s = (Inr x, s1) \<and> f x s1 = (Inr y, s'))"
  by (auto simp: bindE_def split: prod.splits sum.splits)

lemma bindE_Inl:
  "bindE m f s = (Inl e, s') \<longleftrightarrow>
     (m s = (Inl e, s') \<or> (\<exists>x s1. m s = (Inr x, s1) \<and> f x s1 = (Inl e, s')))"
  by (auto simp: bindE_def split: prod.splits sum.splits)

lemma thenE_Inr:
  "thenE m k s = (Inr y, s') \<longleftrightarrow> (\<exists>x s1. m s = (Inr x, s1) \<and> k s1 = (Inr y, s'))"
  by (simp add: thenE_def bindE_Inr)

lemma thenE_Inl:
  "thenE m k s = (Inl e, s') \<longleftrightarrow>
     (m s = (Inl e, s') \<or> (\<exists>x s1. m s = (Inr x, s1) \<and> k s1 = (Inl e, s')))"
  by (simp add: thenE_def bindE_Inl)

section \<open>Finding a delimiter\<close>

lemma occurs_prefix:
  "sub \<noteq> [] \<Longrightarrow> occurs sub line i \<longleftrightarrow> prefix sub (drop i line)"
  unfolding occurs_def
proof
  assume "i + length sub \<le> length line \<and> take (length sub) (drop i line) = sub"
  then show "prefix sub (drop i line)" by (metis take_is_prefix)
next
  assume ne: "sub \<noteq> []" and p: "prefix sub (drop i line)"
  from p have "length sub \<le> length (drop i line)" by (rule prefix_length_le)
  with ne have "i + length sub \<le> length line" by (cases sub) auto
  moreover from p have "take (length sub) (drop i line) = sub"
    by (auto simp: prefix_def)
  ultimately show "i + length sub \<le> length line \<and> take (length sub) (drop i line) = sub" by simp
qed

lemma find0_None: "sub \<noteq> [] \<Longrightarrow> find0 sub xs = None \<Longrightarrow> \<not> prefix sub (drop j xs)"
proof (induction xs arbitrary: j)
  case Nil then show ?case by simp
next
  case (Cons c cs)
  then show ?case by (cases j) (auto split: if_splits)
qed

lemma find0_Some_least: "find0 sub xs = Some k \<Longrightarrow> j < k \<Longrightarrow> \<not> prefix sub (drop j xs)"
proof (induction xs arbitrary: j k)
  case Nil then show ?case by (simp split: if_splits)
next
  case (Cons c cs)
  then show ?case by (cases j) (auto split: if_splits)
qed

lemma py_find_neg:
  assumes "sub \<noteq> []" "py_find line sub off = - 1" "off \<le> j"
  shows "\<not> occurs sub line j"
proof (cases "length line < off")
  case True
  with assms show ?thesis by (simp add: occurs_def)
next
  case False
  with assms have "find0 sub (drop off line) = None"
    by (simp add: py_find_def split: option.splits)
  then have "\<not> prefix sub (drop (j - off) (drop off line))" using assms(1) by (rule find0_None [rotated])
  with assms show ?thesis by (simp add: occurs_prefix)
qed

lemma py_find_pos:
  assumes "sub \<noteq> []" "py_find line sub off \<noteq> - 1"
  shows "occurs sub line (nat (py_find line sub off))"
    and "off \<le> nat (py_find line sub off)"
    and "off \<le> j \<Longrightarrow> j < nat (py_find line sub off) \<Longrightarrow> \<not> occurs sub line j"
    and "py_find line sub off = int off + int (the (find0 sub (drop off line)))"
    and "find0 sub (drop off line) \<noteq> None"
proof -
  from assms obtain k where k: "find0 sub (drop off line) = Some k" "off \<le> length line"
    and pf: "py_find line sub off = int (off + k)"
    by (auto simp: py_find_def split: if_splits option.splits)
  from k show "find0 sub (drop off line) \<noteq> None" by simp
  from pf k show "py_find line sub off = int off + int (the (find0 sub (drop off line)))" by simp
  from pf show "off \<le> nat (py_find line sub off)" by simp
  from find0_Some_prefix [OF k(1)] have "prefix sub (drop (off + k) line)" by (simp add: add.commute)
  moreover from pf have "nat (py_find line sub off) = off + k" by simp
  ultimately show "occurs sub line (nat (py_find line sub off))"
    using assms(1) by (simp add: occurs_prefix)
  show "\<not> occurs sub line j" if "off \<le> j" "j < nat (py_find line sub off)"
  proof -
    from that pf have "j - off < k" by simp
    from find0_Some_least [OF k(1) this] that assms(1) show ?thesis by (simp add: occurs_prefix)
  qed
qed


lemma scan_titles_no_open: "find0 ''[['' xs = None \<Longrightarrow> scan_titles None xs = []"
proof (induction xs)
  case Nil then show ?case by simp
next
  case (Cons c cs)
  then show ?case by (cases cs) (auto split: if_splits)
qed

lemma scan_titles_open:
  "find0 ''[['' xs = Some j \<Longrightarrow> scan_titles None xs = scan_titles (Some []) (drop (j + 2) xs)"
proof (induction xs arbitrary: j)
  case Nil then show ?case by simp
next
  case (Cons c cs)
  then show ?case by (cases cs) (auto split: if_splits)
qed

lemma scan_titles_close:
  "find0 '']]'' xs = Some k \<Longrightarrow>
     scan_titles (Some acc) xs = (rev acc @ take k xs) # scan_titles None (drop (k + 2) xs)"
proof (induction xs arbitrary: k acc)
  case Nil then show ?case by simp
next
  case (Cons c cs)
  then show ?case by (cases cs) (auto split: if_splits)
qed

lemma find0_close_after_open:
  "find0 '']]'' (CHR ''['' # CHR ''['' # rest) = map_option (\<lambda>k. k + 2) (find0 '']]'' rest)"
  by (simp add: option.map_comp comp_def)


declare scan_links.simps [simp del]

lemma scan_links_step:
  assumes s: "py_find line ''[['' offset \<noteq> - 1"
    and f: "py_find line '']]'' (nat (py_find line ''[['' offset)) \<noteq> - 1"
  shows "scan_titles None (drop offset line) =
           py_slice line (py_find line ''[['' offset + 2)
             (py_find line '']]'' (nat (py_find line ''[['' offset)))
           # scan_titles None (drop (nat (py_find line '']]'' (nat (py_find line ''[['' offset)) + 2)) line)"
proof -
  obtain j where j: "find0 ''[['' (drop offset line) = Some j"
    and sj: "py_find line ''[['' offset = int (offset + j)"
    using s by (auto simp: py_find_def split: if_splits option.splits)
  have pre: "prefix ''[['' (drop (offset + j) line)"
    using find0_Some_prefix [OF j] by (simp add: add.commute)
  then obtain rest where rest: "drop (offset + j) line = CHR ''['' # CHR ''['' # rest"
    by (auto simp: prefix_def)
  have rest': "rest = drop (offset + j + 2) line"
  proof -
    have "drop 2 (drop (offset + j) line) = rest" using rest by simp
    moreover have "2 + (offset + j) = offset + j + 2" by arith
    ultimately show ?thesis by (simp only: drop_drop)
  qed
  have f': "py_find line '']]'' (offset + j) \<noteq> - 1"
    using f unfolding sj nat_int .
  obtain k' where k': "find0 '']]'' (drop (offset + j) line) = Some k'"
    and fk: "py_find line '']]'' (offset + j) = int (offset + j + k')"
    using f' by (auto simp: py_find_def split: if_splits option.splits)
  from k' rest obtain k where k: "find0 '']]'' rest = Some k" and kk: "k' = k + 2"
    by (auto simp: find0_close_after_open simp del: find0.simps)
  have bound: "k + 2 \<le> length rest" using find0_Some_bound [OF k] by simp
  have len: "offset + j + k + 4 \<le> length line"
  proof -
    have "length rest = length line - (offset + j + 2)" using rest' by simp
    with bound show ?thesis by simp
  qed
  have "scan_titles None (drop offset line) = scan_titles (Some []) (drop (j + 2) (drop offset line))"
    using j by (rule scan_titles_open)
  also have "drop (j + 2) (drop offset line) = rest"
  proof -
    have "j + 2 + offset = offset + j + 2" by arith
    then show ?thesis by (simp only: rest' drop_drop)
  qed
  also have "scan_titles (Some []) rest = (rev [] @ take k rest) # scan_titles None (drop (k + 2) rest)"
    using k by (rule scan_titles_close)
  also have "drop (k + 2) rest = drop (offset + j + k + 4) line"
  proof -
    have "k + 2 + (offset + j + 2) = offset + j + k + 4" by arith
    then show ?thesis by (simp only: rest' drop_drop)
  qed
  finally have 1: "scan_titles None (drop offset line) =
      take k rest # scan_titles None (drop (offset + j + k + 4) line)" by simp
  have 2: "py_slice line (int (offset + j) + 2) (int (offset + j + k')) = take k rest"
    using len kk rest' by (simp add: py_slice_def min_def Let_def nat_add_distrib)
  have 3: "nat (int (offset + j + k') + 2) = offset + j + k + 4" using kk by simp
  show ?thesis unfolding sj nat_int fk using 1 2 3 by simp
qed

lemma scan_links_Some:
  "scan_links line offset links = Some r \<Longrightarrow>
     r = foldl add_link links (scan_titles None (drop offset line))"
proof (induction line offset links rule: scan_links.induct)
  case (1 line offset links)
  show ?case
  proof (cases "py_find line ''[['' offset = - 1")
    case True
    then have "scan_titles None (drop offset line) = []"
      by (auto simp: py_find_def scan_titles_no_open split: if_splits option.splits)
    with True "1.prems" show ?thesis by (simp add: scan_links.simps [of line offset])
  next
    case False
    show ?thesis
    proof (cases "py_find line '']]'' (nat (py_find line ''[['' offset)) = - 1")
      case True
      with False "1.prems" show ?thesis by (simp add: scan_links.simps [of line offset])
    next
      case f: False
      from "1.prems" False f have
        "scan_links line (nat (py_find line '']]'' (nat (py_find line ''[['' offset)) + 2))
           (add_link links (py_slice line (py_find line ''[['' offset + 2)
              (py_find line '']]'' (nat (py_find line ''[['' offset))))) = Some r"
        by (simp add: scan_links.simps [of line offset])
      from "1.IH" [OF False f this] scan_links_step [OF False f]
      show ?thesis by simp
    qed
  qed
qed


lemma occurs_char:
  assumes "occurs [a, b] line i"
  shows "line ! i = a" and "line ! (i + 1) = b"
proof -
  from assms have "prefix [a, b] (drop i line)" by (simp add: occurs_prefix)
  then obtain rest where rest: "drop i line = a # b # rest" by (auto simp: prefix_def)
  from assms have len: "i + 2 \<le> length line" by (simp add: occurs_def)
  have "drop i line ! 0 = line ! (i + 0)" using len by (intro nth_drop) simp
  with rest show "line ! i = a" by simp
  have "drop i line ! 1 = line ! (i + 1)" using len by (intro nth_drop) simp
  with rest show "line ! (i + 1) = b" by simp
qed

lemma py_find_nonneg: "py_find line sub off \<noteq> - 1 \<Longrightarrow> 0 \<le> py_find line sub off"
  by (auto simp: py_find_def split: if_splits option.splits)

lemma scan_links_unterminated:
  "offset \<le> i \<Longrightarrow> occurs ''[['' line i \<Longrightarrow> \<forall>j\<ge>i. \<not> occurs '']]'' line j \<Longrightarrow>
     scan_links line offset links = None"
proof (induction line offset links rule: scan_links.induct)
  case (1 line offset links)
  have s: "py_find line ''[['' offset \<noteq> - 1"
    using py_find_neg [of "''[[''" line offset i] "1.prems" by auto
  have si: "nat (py_find line ''[['' offset) \<le> i"
    using py_find_pos(3) [of "''[[''" line offset i, OF _ s] "1.prems" by force
  show ?case
  proof (cases "py_find line '']]'' (nat (py_find line ''[['' offset)) = - 1")
    case True
    with s show ?thesis by (simp add: scan_links.simps [of line offset])
  next
    case f: False
    let ?f = "nat (py_find line '']]'' (nat (py_find line ''[['' offset)))"
    have o: "occurs '']]'' line ?f" using py_find_pos(1) [OF _ f] by simp
    with "1.prems" have lt: "?f < i" by (meson not_le)
    have "?f + 1 \<noteq> i"
    proof
      assume "?f + 1 = i"
      with occurs_char(2) [OF o] occurs_char(1) [OF "1.prems"(2)] show False by auto
    qed
    with lt have le: "?f + 2 \<le> i" by simp
    have nn: "0 \<le> py_find line '']]'' (nat (py_find line ''[['' offset))"
      using f by (rule py_find_nonneg)
    have "nat (py_find line '']]'' (nat (py_find line ''[['' offset)) + 2) = ?f + 2"
      using nn by simp
    with le have le': "nat (py_find line '']]'' (nat (py_find line ''[['' offset)) + 2) \<le> i"
      by simp
    from "1.IH" [OF s f le' "1.prems"(2,3)] s f show ?thesis
      by (simp add: scan_links.simps [of line offset])
  qed
qed

lemma scan_links_None:
  "scan_links line offset links = None \<Longrightarrow>
     \<exists>i\<ge>offset. occurs ''[['' line i \<and> (\<forall>j\<ge>i. \<not> occurs '']]'' line j)"
proof (induction line offset links rule: scan_links.induct)
  case (1 line offset links)
  from "1.prems" have s: "py_find line ''[['' offset \<noteq> - 1"
    by (auto simp: scan_links.simps [of line offset] split: if_splits)
  show ?case
  proof (cases "py_find line '']]'' (nat (py_find line ''[['' offset)) = - 1")
    case True
    have "occurs ''[['' line (nat (py_find line ''[['' offset))"
      using py_find_pos(1) [OF _ s] by simp
    moreover have "offset \<le> nat (py_find line ''[['' offset)"
      using py_find_pos(2) [OF _ s] by simp
    moreover have "\<forall>j\<ge>nat (py_find line ''[['' offset). \<not> occurs '']]'' line j"
      using py_find_neg [OF _ True] by simp
    ultimately show ?thesis by blast
  next
    case f: False
    from "1.prems" s f have
      "scan_links line (nat (py_find line '']]'' (nat (py_find line ''[['' offset)) + 2))
         (add_link links (py_slice line (py_find line ''[['' offset + 2)
            (py_find line '']]'' (nat (py_find line ''[['' offset))))) = None"
      by (simp add: scan_links.simps [of line offset])
    from "1.IH" [OF s f this] obtain i where
      i: "nat (py_find line '']]'' (nat (py_find line ''[['' offset)) + 2) \<le> i"
        "occurs ''[['' line i" "\<forall>j\<ge>i. \<not> occurs '']]'' line j"
      by blast
    have "int offset \<le> py_find line ''[['' offset" using py_find_bounds [OF s] by simp
    moreover have "int (nat (py_find line ''[['' offset)) \<le> py_find line '']]'' (nat (py_find line ''[['' offset))"
      using py_find_bounds [OF f] by simp
    ultimately have "offset \<le> i" using i(1) by linarith
    with i show ?thesis by blast
  qed
qed

lemma unterminated_iff:
  "unterminated line \<longleftrightarrow> (\<exists>i. occurs ''[['' line i \<and> (\<forall>j\<ge>i. \<not> occurs '']]'' line j))"
proof
  assume "unterminated line"
  then obtain i where i: "occurs ''[['' line i" "\<forall>j\<in>set [i..<Suc (length line)]. \<not> occurs '']]'' line j"
    unfolding unterminated_def by blast
  have "\<not> occurs '']]'' line j" if "i \<le> j" for j
  proof (cases "j \<le> length line")
    case True
    with that have "j \<in> set [i..<Suc (length line)]" by auto
    with i(2) show ?thesis by blast
  next
    case False then show ?thesis by (simp add: occurs_def)
  qed
  with i(1) show "\<exists>i. occurs ''[['' line i \<and> (\<forall>j\<ge>i. \<not> occurs '']]'' line j)" by blast
next
  assume "\<exists>i. occurs ''[['' line i \<and> (\<forall>j\<ge>i. \<not> occurs '']]'' line j)"
  then obtain i where i: "occurs ''[['' line i" "\<forall>j\<ge>i. \<not> occurs '']]'' line j" by blast
  from i(1) have "i \<in> set [0..<Suc (length line)]" by (auto simp: occurs_def)
  moreover from i(2) have "\<forall>j\<in>set [i..<Suc (length line)]. \<not> occurs '']]'' line j" by auto
  ultimately show "unterminated line" unfolding unterminated_def using i(1) by blast
qed

lemma scan_links_None_iff: "scan_links line 0 links = None \<longleftrightarrow> unterminated line"
  using scan_links_None [of line 0 links] scan_links_unterminated [of 0 _ line links]
  by (auto simp: unterminated_iff)

lemma links_of_lines_Inl:
  "\<exists>line\<in>set content. unterminated line \<Longrightarrow> \<exists>line. links_of_lines content links = Inl line"
proof (induction content arbitrary: links)
  case Nil then show ?case by simp
next
  case (Cons l ls)
  show ?case
  proof (cases "scan_links l 0 links")
    case None then show ?thesis by simp
  next
    case (Some links')
    then have "\<not> unterminated l" using scan_links_None_iff [of l links] by simp
    with Cons.prems have "\<exists>line\<in>set ls. unterminated line" by simp
    from Cons.IH [OF this] Some show ?thesis by simp
  qed
qed

lemma links_of_lines_Inr:
  "\<forall>line\<in>set content. \<not> unterminated line \<Longrightarrow>
     links_of_lines content links = Inr (foldl add_link links (concat (map link_titles content)))"
proof (induction content arbitrary: links)
  case Nil then show ?case by simp
next
  case (Cons l ls)
  from Cons.prems have "scan_links l 0 links \<noteq> None" by (simp add: scan_links_None_iff)
  then obtain links' where l': "scan_links l 0 links = Some links'" by blast
  from scan_links_Some [OF this] have "links' = foldl add_link links (link_titles l)"
    by (simp add: link_titles_def)
  with l' Cons show ?case by simp
qed

lemma set_first_seen: "set (first_seen xs) = set xs"
  by (induction xs) auto

lemma distinct_first_seen: "distinct (first_seen xs)"
  by (induction xs) (auto simp: set_first_seen)

lemma foldl_add_link:
  "foldl add_link acc ts = acc @ filter (\<lambda>t. t \<notin> set acc) (first_seen ts)"
proof (induction ts arbitrary: acc)
  case Nil then show ?case by simp
next
  case (Cons t ts)
  show ?case
  proof (cases "t \<in> set acc")
    case True
    then have "filter (\<lambda>u. u \<notin> set acc) (filter (\<lambda>y. y \<noteq> t) (first_seen ts)) = filter (\<lambda>u. u \<notin> set acc) (first_seen ts)"
      by (auto intro: filter_cong)
    with True Cons show ?thesis by (simp add: add_link_def)
  next
    case False
    then have "filter (\<lambda>u. u \<notin> set (acc @ [t])) (first_seen ts) = filter (\<lambda>u. u \<notin> set acc) (filter (\<lambda>y. y \<noteq> t) (first_seen ts))"
      by (auto intro: filter_cong)
    with False Cons show ?thesis by (simp add: add_link_def)
  qed
qed

lemma foldl_add_link_Nil: "foldl add_link [] ts = first_seen ts"
  by (simp add: foldl_add_link)

section \<open>Effects of the calls\<close>

lemma ret_apply: "ret x s = (Inr x, s)" by (simp add: ret_def)
lemma raise_apply: "raise e s = (Inl e, s)" by (simp add: raise_def)
lemma lift_apply: "lift r s = (r, s)" by (simp add: lift_def)
lemma put_apply: "put p n s = (Inr (), s\<lparr>fs := (p, n) # fs s\<rparr>)" by (simp add: put_def)
lemma log_apply: "log ev s = (Inr (), s\<lparr>trace := trace s @ [ev]\<rparr>)" by (simp add: log_def)
lemma print_apply: "print msg s = (Inr (), s\<lparr>stdout := stdout s @ [msg]\<rparr>)" by (simp add: print_def)

lemmas io_apply = ret_apply raise_apply lift_apply put_apply log_apply print_apply

lemma bindE_apply_Inr: "m s = (Inr x, s1) \<Longrightarrow> bindE m f s = f x s1"
  by (simp add: bindE_def)

lemma bindE_apply_Inl: "m s = (Inl e, s1) \<Longrightarrow> bindE m f s = (Inl e, s1)"
  by (simp add: bindE_def)

lemma thenE_apply_Inr: "m s = (Inr x, s1) \<Longrightarrow> thenE m k s = k s1"
  by (simp add: thenE_def bindE_def)

lemma thenE_apply_Inl: "m s = (Inl e, s1) \<Longrightarrow> thenE m k s = (Inl e, s1)"
  by (simp add: thenE_def bindE_def)

text \<open>A computation is quiet when whatever it logs is no touch, however it ends.\<close>

definition quiet :: "('t, 'a) io \<Rightarrow> bool" where
  "quiet m \<longleftrightarrow> (\<forall>s. \<exists>evs. trace (snd (m s)) = trace s @ evs \<and> \<not> list_ex is_touch evs)"

lemma quietD: "quiet m \<Longrightarrow> m s = (r, s') \<Longrightarrow> \<exists>evs. trace s' = trace s @ evs \<and> \<not> list_ex is_touch evs"
  by (metis quiet_def snd_conv)

lemma quiet_ret [simp]: "quiet (ret x)" by (simp add: quiet_def ret_def)
lemma quiet_raise [simp]: "quiet (raise e)" by (simp add: quiet_def raise_def)
lemma quiet_lift [simp]: "quiet (lift r)" by (simp add: quiet_def lift_def)
lemma quiet_put [simp]: "quiet (put p n)" by (simp add: quiet_def put_def)
lemma quiet_print [simp]: "quiet (print msg)" by (simp add: quiet_def print_def)
lemma quiet_log [simp]: "\<not> is_touch ev \<Longrightarrow> quiet (log ev)" by (simp add: quiet_def log_def)

lemma quiet_bindE:
  assumes "quiet m" "\<And>x. quiet (f x)"
  shows "quiet (bindE m f)"
  unfolding quiet_def
proof
  fix s
  obtain r s1 where ms: "m s = (r, s1)" by (cases "m s")
  from quietD [OF assms(1) ms] obtain evs where e1: "trace s1 = trace s @ evs" "\<not> list_ex is_touch evs"
    by blast
  show "\<exists>evs. trace (snd (bindE m f s)) = trace s @ evs \<and> \<not> list_ex is_touch evs"
  proof (cases r)
    case (Inl e)
    with ms e1 show ?thesis by (auto simp: bindE_def)
  next
    case (Inr x)
    obtain r2 s2 where fs: "f x s1 = (r2, s2)" by (cases "f x s1")
    from quietD [OF assms(2) fs] obtain evs2 where
      e2: "trace s2 = trace s1 @ evs2" "\<not> list_ex is_touch evs2" by blast
    from ms Inr fs have "bindE m f s = (r2, s2)" by (simp add: bindE_def)
    with e1 e2 show ?thesis by (auto simp: list_ex_iff)
  qed
qed

lemma quiet_thenE: "quiet m \<Longrightarrow> quiet k \<Longrightarrow> quiet (thenE m k)"
  unfolding thenE_def by (rule quiet_bindE)

lemma quiet_forE: "(\<And>x. quiet (f x)) \<Longrightarrow> quiet (forE xs f)"
  by (induction xs) (auto intro!: quiet_thenE)


lemma quiet_stateI: "(\<And>s. \<exists>evs. trace (snd (m s)) = trace s @ evs \<and> \<not> list_ex is_touch evs) \<Longrightarrow> quiet m"
  by (simp add: quiet_def)

lemmas quiet_intros = quiet_bindE quiet_thenE quiet_forE

lemma quiet_mkdir_chain [simp]: "quiet (mkdir_chain base cs :: ('t, unit) io)"
proof (induction cs arbitrary: base)
  case Nil show ?case by simp
next
  case (Cons c cs)
  have 1: "quiet (thenE (put (base @ [c]) Dir) (mkdir_chain (base @ [c]) cs :: ('t, unit) io))"
    by (rule quiet_thenE) (simp_all add: Cons.IH)
  show ?case
  proof (rule quiet_stateI)
    fix s :: "'t state"
    show "\<exists>evs. trace (snd (mkdir_chain base (c # cs) s)) = trace s @ evs \<and> \<not> list_ex is_touch evs"
      using 1 Cons.IH [of "base @ [c]"]
      by (auto simp: quiet_def raise_def split: option.splits node.splits)
  qed
qed

lemma quiet_mkdir_parents [simp]: "quiet (mkdir_parents p)"
  unfolding mkdir_parents_def by (intro quiet_intros) simp_all

lemma quiet_check_open_w [simp]: "quiet (check_open_w p)"
  by (rule quiet_stateI) (simp add: check_open_w_def raise_def ret_def)

lemma quiet_write_json [simp]: "quiet (write_json p n)"
  unfolding write_json_def by (intro quiet_intros) simp_all

lemma quiet_open_w [simp]: "quiet (open_w p)"
  unfolding open_w_def by (intro quiet_intros) simp_all

lemma quiet_write_line [simp]: "quiet (write_line p l)"
  by (rule quiet_stateI) (simp add: write_line_def thenE_def bindE_def put_def log_def)

lemma quiet_copy [simp]: "quiet (copy src dst :: ('t, unit) io)"
proof (rule quiet_stateI)
  fix s :: "'t state"
  have "quiet (thenE (check_open_w t) (thenE (put t (File x)) (log (Copy src dst))))"
    for t and x :: "'t content"
    by (intro quiet_intros) simp_all
  then show "\<exists>evs. trace (snd (copy src dst s)) = trace s @ evs \<and> \<not> list_ex is_touch evs"
    by (auto simp: copy_def Let_def quiet_def raise_def split: option.splits node.splits)
qed

lemma quiet_synchronise_attachment [simp]: "quiet (synchronise_attachment atype path line)"
  unfolding synchronise_attachment_def by (auto intro!: quiet_intros)

lemma quiet_synchronise_line [simp]: "quiet (synchronise_line path line)"
  unfolding synchronise_line_def by (auto intro!: quiet_intros)

lemma quiet_synchronise_note [simp]: "quiet (synchronise_note r note path ident)"
  unfolding synchronise_note_def xcall_open_note_def by (intro quiet_intros) simp_all


section \<open>The calls of a fetch\<close>

lemma mkdir_chain_trace: "mkdir_chain base cs s = (r, s') \<Longrightarrow> trace s' = trace s"
proof (induction cs arbitrary: base s)
  case Nil then show ?case by (simp add: ret_def)
next
  case (Cons c cs)
  show ?case
  proof (cases "lookup (fs s) (base @ [c])")
    case None
    with Cons.prems have "mkdir_chain (base @ [c]) cs (s\<lparr>fs := (base @ [c], Dir) # fs s\<rparr>) = (r, s')"
      by (simp add: thenE_def bindE_def put_def)
    from Cons.IH [OF this] show ?thesis by simp
  next
    case (Some n)
    with Cons.prems Cons.IH [of "base @ [c]" s] show ?thesis
      by (cases n) (auto simp: raise_def)
  qed
qed

lemma mkdir_parents_trace:
  "mkdir_parents p s = (Inr x, s') \<Longrightarrow> trace s' = trace s @ [Mkdir p]"
  by (auto simp: mkdir_parents_def thenE_Inr log_def dest!: mkdir_chain_trace)

lemma check_open_w_state: "check_open_w p s = (r, s') \<Longrightarrow> s' = s"
  by (auto simp: check_open_w_def raise_def ret_def split: if_splits)

lemma write_json_trace:
  "write_json p n s = (Inr x, s') \<Longrightarrow> trace s' = trace s @ [WriteJson p n]"
  by (auto simp: write_json_def thenE_Inr log_def put_def dest!: check_open_w_state)

lemma open_w_trace: "open_w p s = (Inr x, s') \<Longrightarrow> trace s' = trace s @ [OpenW p]"
  by (auto simp: open_w_def thenE_Inr log_def put_def dest!: check_open_w_state)

lemma write_line_trace:
  "write_line p l s = (r, s') \<Longrightarrow> r = Inr () \<and> trace s' = trace s @ [WriteLine p l]"
  by (auto simp: write_line_def thenE_def bindE_def log_def put_def)

lemma copy_trace: "copy src dst s = (Inr x, s') \<Longrightarrow> trace s' = trace s @ [Copy src dst]"
  by (auto simp: copy_def Let_def raise_def thenE_Inr log_def put_def
      split: option.splits node.splits if_splits dest!: check_open_w_state)

lemma print_trace: "print msg s = (r, s') \<Longrightarrow> trace s' = trace s"
  by (auto simp: print_def)

lemma synchronise_attachment_file_trace:
  "synchronise_attachment ''file'' path line s = (Inr x, s') \<Longrightarrow>
     trace s' = trace s @ [Copy (pjoin (Path FILES_DIR) (attachment_f ''file'' line))
                            (pjoin path (attachment_name ''file'' line))]"
  by (auto simp: synchronise_attachment_def raise_def thenE_Inr split: if_splits
      dest!: copy_trace print_trace)

lemma synchronise_attachment_image_trace:
  "synchronise_attachment ''image'' path line s = (Inr x, s') \<Longrightarrow>
     trace s' = trace s @ [Copy (pjoin (Path IMAGE_DIR) (attachment_f ''image'' line))
                            (pjoin path (attachment_name ''image'' line))]"
  by (auto simp: synchronise_attachment_def raise_def thenE_Inr split: if_splits
      dest!: copy_trace print_trace)

lemma synchronise_line_trace:
  assumes "synchronise_line path line s = (Inr x, s')"
  shows "trace s' = trace s @ line_events path line"
proof -
  from assms obtain s1 s2 where
    1: "write_line (path @ [''note.md'']) line s = (Inr (), s1)"
    and 2: "(if py_in ''[file:'' line then synchronise_attachment ''file'' path line else ret ()) s1 = (Inr (), s2)"
    and 3: "(if py_in ''[image:'' line then synchronise_attachment ''image'' path line else ret ()) s2 = (Inr x, s')"
    by (auto simp: synchronise_line_def thenE_Inr)
  from 1 have t1: "trace s1 = trace s @ [WriteLine (path @ [''note.md'']) line]"
    by (auto dest: write_line_trace)
  from 2 have t2: "trace s2 = trace s1 @
      (if py_in ''[file:'' line
       then [Copy (pjoin (Path FILES_DIR) (attachment_f ''file'' line))
               (pjoin path (attachment_name ''file'' line))]
       else [])"
    by (auto simp: ret_def split: if_splits dest: synchronise_attachment_file_trace)
  from 3 have t3: "trace s' = trace s2 @
      (if py_in ''[image:'' line
       then [Copy (pjoin (Path IMAGE_DIR) (attachment_f ''image'' line))
               (pjoin path (attachment_name ''image'' line))]
       else [])"
    by (auto simp: ret_def split: if_splits dest: synchronise_attachment_image_trace)
  from t1 t2 t3 show ?thesis by (simp add: line_events_def)
qed

lemma synchronise_lines_trace:
  "forE content (synchronise_line path) s = (Inr x, s') \<Longrightarrow>
     trace s' = trace s @ concat (map (line_events path) content)"
proof (induction content arbitrary: s)
  case Nil then show ?case by (simp add: ret_def)
next
  case (Cons l ls)
  from Cons.prems obtain y s1 where 1: "synchronise_line path l s = (Inr y, s1)"
    and 2: "forE ls (synchronise_line path) s1 = (Inr x, s')"
    by (auto simp: thenE_Inr)
  from synchronise_line_trace [OF 1] Cons.IH [OF 2] show ?case by simp
qed

lemma synchronise_note_trace:
  assumes "synchronise_note r note path ident s = (Inr x, s')"
  shows "\<exists>content. open_note r ident = Inr content \<and>
           trace s' = trace s @ [Mkdir path, WriteJson (path @ [''note.json'']) note,
                                 OpenW (path @ [''note.md''])] @
                      concat (map (line_events path) content)"
proof -
  from assms obtain s0 s1 s2 s3 content s4 where
    0: "print (''synchronise: '' @ title note) s = (Inr (), s0)"
    and 1: "mkdir_parents path s0 = (Inr (), s1)"
    and 2: "write_json (path @ [''note.json'']) note s1 = (Inr (), s2)"
    and 3: "open_w (path @ [''note.md'']) s2 = (Inr (), s3)"
    and 4: "xcall_open_note r ident s3 = (Inr content, s4)"
    and 5: "forE content (synchronise_line path) s4 = (Inr x, s')"
    by (auto simp: synchronise_note_def thenE_Inr bindE_Inr)
  from 4 have o: "open_note r ident = Inr content" and s4: "s4 = s3"
    by (auto simp: xcall_open_note_def lift_def)
  from print_trace [OF 0] mkdir_parents_trace [OF 1] write_json_trace [OF 2] open_w_trace [OF 3]
    synchronise_lines_trace [OF 5] s4 o
  show ?thesis by simp
qed

lemma path_exists_put: "path_exists (fs s) p \<Longrightarrow> put q n s = (r, s') \<Longrightarrow> path_exists (fs s') p"
  by (auto simp: put_def path_exists_def lookup_def)

lemma touch_Inr:
  "touch p s = (Inr x, s') \<Longrightarrow> trace s' = trace s @ [Touch p] \<and> path_exists (fs s') p"
  by (auto simp: touch_def log_def put_def thenE_Inr path_exists_def lookup_def
      split: if_splits dest!: check_open_w_state)

lemma touch_Inl: "touch p s = (Inl e, s') \<Longrightarrow> s' = s"
  by (auto simp: touch_def log_def put_def thenE_Inl split: if_splits dest!: check_open_w_state)

lemma synchronise_note_done_Inr:
  assumes "synchronise_note_done r note path ident s = (Inr x, s')"
  shows "\<exists>content. open_note r ident = Inr content \<and>
           trace s' = trace s @ fetch_events path note content \<and>
           path_exists (fs s') (path @ [''.done''])"
proof -
  from assms obtain s1 where 1: "synchronise_note r note path ident s = (Inr (), s1)"
    and 2: "touch (path @ [''.done'']) s1 = (Inr x, s')"
    by (auto simp: synchronise_note_done_def thenE_Inr)
  from synchronise_note_trace [OF 1] touch_Inr [OF 2] show ?thesis
    by (auto simp: fetch_events_def)
qed

lemma synchronise_note_done_Inl:
  assumes "synchronise_note_done r note path ident s = (Inl e, s')"
  shows "\<exists>evs. trace s' = trace s @ evs \<and> \<not> list_ex is_touch evs"
proof -
  from assms consider "synchronise_note r note path ident s = (Inl e, s')"
    | s1 where "synchronise_note r note path ident s = (Inr (), s1)"
        "touch (path @ [''.done'']) s1 = (Inl e, s')"
    by (auto simp: synchronise_note_done_def thenE_Inl)
  then show ?thesis
  proof cases
    case 1
    from quietD [OF quiet_synchronise_note 1] show ?thesis .
  next
    case 2
    from touch_Inl [OF 2(2)] quietD [OF quiet_synchronise_note 2(1)] show ?thesis by simp
  qed
qed

section \<open>Where the marker can come from\<close>

text \<open>
  A computation spares the path \<open>q\<close> when, however it ends, it logs no touch, and \<open>q\<close>
  exists afterwards only if it existed before or a copy was made onto it.
\<close>

definition spares :: "path \<Rightarrow> ('t, 'a) io \<Rightarrow> bool" where
  "spares q m \<longleftrightarrow>
     (\<forall>s. \<exists>evs. trace (snd (m s)) = trace s @ evs \<and> \<not> list_ex is_touch evs \<and>
        (path_exists (fs (snd (m s))) q \<longrightarrow>
           path_exists (fs s) q \<or> list_ex (copy_onto q) evs))"

lemma sparesD:
  "spares q m \<Longrightarrow> m s = (r, s') \<Longrightarrow>
     \<exists>evs. trace s' = trace s @ evs \<and> \<not> list_ex is_touch evs \<and>
       (path_exists (fs s') q \<longrightarrow> path_exists (fs s) q \<or> list_ex (copy_onto q) evs)"
  by (metis spares_def snd_conv)

lemma spares_stateI:
  "(\<And>s. \<exists>evs. trace (snd (m s)) = trace s @ evs \<and> \<not> list_ex is_touch evs \<and>
        (path_exists (fs (snd (m s))) q \<longrightarrow>
           path_exists (fs s) q \<or> list_ex (copy_onto q) evs)) \<Longrightarrow> spares q m"
  by (simp add: spares_def)

lemma spares_ret [simp]: "spares q (ret x)" by (simp add: spares_def ret_def)
lemma spares_raise [simp]: "spares q (raise e)" by (simp add: spares_def raise_def)
lemma spares_lift [simp]: "spares q (lift r)" by (simp add: spares_def lift_def)
lemma spares_print [simp]: "spares q (print msg)" by (simp add: spares_def print_def)
lemma spares_put [simp]: "p \<noteq> q \<Longrightarrow> spares q (put p n)"
  by (simp add: spares_def put_def path_exists_def lookup_def)
lemma spares_log [simp]: "\<not> is_touch ev \<Longrightarrow> spares q (log ev)"
  by (rule spares_stateI) (simp add: log_def)

lemma spares_bindE:
  assumes "spares q m" "\<And>x. spares q (f x)"
  shows "spares q (bindE m f)"
proof (rule spares_stateI)
  fix s
  obtain r s1 where ms: "m s = (r, s1)" by (cases "m s")
  from sparesD [OF assms(1) ms] obtain evs where
    e1: "trace s1 = trace s @ evs" "\<not> list_ex is_touch evs"
      "path_exists (fs s1) q \<longrightarrow> path_exists (fs s) q \<or> list_ex (copy_onto q) evs"
    by blast
  show "\<exists>evs. trace (snd (bindE m f s)) = trace s @ evs \<and> \<not> list_ex is_touch evs \<and>
        (path_exists (fs (snd (bindE m f s))) q \<longrightarrow>
           path_exists (fs s) q \<or> list_ex (copy_onto q) evs)"
  proof (cases r)
    case (Inl e)
    with ms e1 show ?thesis by (auto simp: bindE_def)
  next
    case (Inr x)
    obtain r2 s2 where fs: "f x s1 = (r2, s2)" by (cases "f x s1")
    from sparesD [OF assms(2) fs] obtain evs2 where
      e2: "trace s2 = trace s1 @ evs2" "\<not> list_ex is_touch evs2"
        "path_exists (fs s2) q \<longrightarrow> path_exists (fs s1) q \<or> list_ex (copy_onto q) evs2"
      by blast
    from ms Inr fs have b: "bindE m f s = (r2, s2)" by (simp add: bindE_def)
    have "trace s2 = trace s @ (evs @ evs2)" using e1 e2 by simp
    moreover have "\<not> list_ex is_touch (evs @ evs2)" using e1(2) e2(2) by (auto simp: list_ex_iff)
    moreover have "path_exists (fs s2) q \<longrightarrow>
        path_exists (fs s) q \<or> list_ex (copy_onto q) (evs @ evs2)"
      using e1(3) e2(3) by (auto simp: list_ex_iff)
    ultimately show ?thesis unfolding b snd_conv by blast
  qed
qed

lemma spares_thenE: "spares q m \<Longrightarrow> spares q k \<Longrightarrow> spares q (thenE m k)"
  unfolding thenE_def by (rule spares_bindE)

lemma spares_forE: "(\<And>x. spares q (f x)) \<Longrightarrow> spares q (forE xs f)"
  by (induction xs) (auto intro!: spares_thenE)

lemmas spares_intros = spares_bindE spares_thenE spares_forE

lemma spares_mkdir_chain:
  "length (base @ cs) < length q \<Longrightarrow> spares q (mkdir_chain base cs :: ('t, unit) io)"
proof (induction cs arbitrary: base)
  case Nil show ?case by simp
next
  case (Cons c cs)
  from Cons.prems have ne: "base @ [c] \<noteq> q" by auto
  from Cons.prems have ih: "spares q (mkdir_chain (base @ [c]) cs :: ('t, unit) io)"
    by (intro Cons.IH) simp
  have 1: "spares q (thenE (put (base @ [c]) Dir) (mkdir_chain (base @ [c]) cs :: ('t, unit) io))"
    by (rule spares_thenE) (simp_all add: ne ih)
  show ?case
  proof (rule spares_stateI)
    fix s :: "'t state"
    show "\<exists>evs. trace (snd (mkdir_chain base (c # cs) s)) = trace s @ evs \<and> \<not> list_ex is_touch evs \<and>
        (path_exists (fs (snd (mkdir_chain base (c # cs) s))) q \<longrightarrow>
           path_exists (fs s) q \<or> list_ex (copy_onto q) evs)"
      using 1 ih
      by (auto simp: spares_def raise_def split: option.splits node.splits)
  qed
qed

lemma spares_mkdir_parents: "length p < length q \<Longrightarrow> spares q (mkdir_parents p)"
  unfolding mkdir_parents_def by (intro spares_intros spares_mkdir_chain) simp_all

lemma spares_check_open_w [simp]: "spares q (check_open_w p)"
  by (rule spares_stateI) (simp add: check_open_w_def raise_def ret_def)

lemma spares_write_json: "p \<noteq> q \<Longrightarrow> spares q (write_json p n)"
  unfolding write_json_def by (intro spares_intros) simp_all

lemma spares_open_w: "p \<noteq> q \<Longrightarrow> spares q (open_w p)"
  unfolding open_w_def by (intro spares_intros) simp_all

lemma spares_write_line: "p \<noteq> q \<Longrightarrow> spares q (write_line p l)"
  by (rule spares_stateI)
    (simp add: write_line_def thenE_def bindE_def put_def log_def path_exists_def lookup_def)

lemma spares_copy [simp]: "spares q (copy src dst :: ('t, unit) io)"
proof (rule spares_stateI)
  fix s :: "'t state"
  let ?t = "if is_dir (fs s) dst \<and> src \<noteq> [] then dst @ [last src] else dst"
  let ?P = "\<lambda>res. \<exists>evs. trace (snd res) = trace s @ evs \<and> \<not> list_ex is_touch evs \<and>
        (path_exists (fs (snd res)) q \<longrightarrow> path_exists (fs s) q \<or> list_ex (copy_onto q) evs)"
  have w: "?P (thenE (check_open_w ?t) (thenE (put ?t (File x)) (log (Copy src dst))) s)"
    for x :: "'t content"
  proof (cases "check_open_w ?t s")
    case (Pair r s1)
    from check_open_w_state [OF Pair] have s1: "s1 = s" .
    show ?thesis
    proof (cases r)
      case (Inl e)
      with Pair s1 show ?thesis by (simp add: thenE_def bindE_def)
    next
      case (Inr u)
      with Pair s1 have "thenE (check_open_w ?t) (thenE (put ?t (File x)) (log (Copy src dst))) s
          = (Inr (), s\<lparr>fs := (?t, File x) # fs s, trace := trace s @ [Copy src dst]\<rparr>)"
        by (simp add: thenE_def bindE_def put_def log_def)
      then show ?thesis
        by (auto simp: path_exists_def lookup_def split: if_splits)
    qed
  qed
  show "?P (copy src dst s)"
  proof (cases "lookup (fs s) src")
    case None then show ?thesis by (simp add: copy_def Let_def raise_def)
  next
    case (Some n)
    show ?thesis
    proof (cases n)
      case Dir with Some show ?thesis by (simp add: copy_def Let_def raise_def)
    next
      case (File x)
      with Some w [of x] show ?thesis
        by (simp add: copy_def Let_def raise_def)
    qed
  qed
qed

lemma spares_synchronise_attachment [simp]: "spares q (synchronise_attachment atype path line)"
  unfolding synchronise_attachment_def by (auto intro!: spares_intros)

lemma spares_synchronise_line [simp]:
  "spares (path @ [''.done'']) (synchronise_line path line)"
  unfolding synchronise_line_def by (auto intro!: spares_intros spares_write_line)

lemma spares_synchronise_note [simp]:
  "spares (path @ [''.done'']) (synchronise_note r note path ident)"
  unfolding synchronise_note_def xcall_open_note_def
  by (intro spares_intros spares_mkdir_parents spares_write_json spares_open_w) simp_all

lemma synchronise_note_done_raises:
  assumes "synchronise_note_done r note path ident s = (Inl e, s')"
  shows "\<exists>evs. trace s' = trace s @ evs \<and> \<not> list_ex is_touch evs \<and>
           (path_exists (fs s') (path @ [''.done'']) \<longrightarrow>
              path_exists (fs s) (path @ [''.done'']) \<or> list_ex (copy_onto (path @ [''.done''])) evs)"
proof -
  from assms consider "synchronise_note r note path ident s = (Inl e, s')"
    | s1 where "synchronise_note r note path ident s = (Inr (), s1)"
        "touch (path @ [''.done'']) s1 = (Inl e, s')"
    by (auto simp: synchronise_note_done_def thenE_Inl)
  then show ?thesis
  proof cases
    case 1
    from sparesD [OF spares_synchronise_note 1] show ?thesis .
  next
    case 2
    from touch_Inl [OF 2(2)] sparesD [OF spares_synchronise_note 2(1)] show ?thesis by simp
  qed
qed

lemma line_events_first_copies:
  "line_events path line = WriteLine (path @ [''note.md'']) line # first_copies path line"
  by (simp add: line_events_def first_copies_def)

lemma is_copy_first_copies: "list_all is_copy (first_copies path line)"
  by (simp add: first_copies_def)

lemma line_calls_line_events: "line_calls path line (line_events path line)"
  using is_copy_first_copies [of path line]
  by (simp add: line_calls_def line_events_first_copies list_all_iff)

lemma line_calls_content: "list_all2 (line_calls path) content (map (line_events path) content)"
  by (induction content) (simp_all add: line_calls_line_events)

section \<open>One step of the main loop\<close>

lemma read_json_state: "read_json p s = (r, s') \<Longrightarrow> s' = s"
  by (auto simp: read_json_def raise_def ret_def split: option.splits node.splits content.splits)

lemma read_json_Inr:
  "read_json p s = (Inr meta, s') \<longleftrightarrow> lookup (fs s) p = Some (File (Json meta)) \<and> s' = s"
  by (auto simp: read_json_def raise_def ret_def split: option.splits node.splits content.splits)

lemma sort_neq_iff: "sort xs \<noteq> sort ys \<longleftrightarrow> mset xs \<noteq> mset ys"
  by (metis mset_sort properties_for_sort sorted_sort)

lemma compare_backup_json:
  "lookup (fs s) (path @ [''note.json'']) = Some (File (Json meta)) \<Longrightarrow>
     compare_backup note path tc s = (Inr (mset (tags meta) \<noteq> mset (tags note), tc), s)"
  by (simp add: compare_backup_def path_exists_def bindE_def read_json_def ret_def sort_neq_iff)

lemma compare_backup_state:
  "compare_backup note path tc s = (r, s') \<Longrightarrow>
     fs s' = fs s \<and> trace s' = trace s \<and> nlist s' = nlist s"
  by (auto simp: compare_backup_def bindE_def thenE_def print_def ret_def
      split: if_splits prod.splits sum.splits dest!: read_json_state)

lemma note_path_eq:
  "snapshot_path (identifier note) (replace_colon (modificationDate note)) = note_path note"
  by (simp add: note_path_def)

lemma synchronise_step_unfold:
  "synchronise_step r acc note s =
     bindE (compare_backup note (note_path note) (fst acc))
       (\<lambda>c. thenE
               (\<lambda>s. (if \<not> path_exists (fs s) (note_path note @ [''.done'']) \<or> fst c
                      then synchronise_note_done r note (note_path note) (identifier note)
                      else ret ()) s)
               (ret (snd c, snd acc @ [identifier note])))
       (s\<lparr>nlist := (nlist s)(identifier note \<mapsto> note)\<rparr>)"
  unfolding synchronise_step_def Let_def note_path_eq
  by (rule thenE_apply_Inr) simp

lemma step_fetch:
  assumes c: "compare_backup note (note_path note) (fst acc) (s\<lparr>nlist := (nlist s)(identifier note \<mapsto> note)\<rparr>) = (Inr (tags_changed, tc), s1)"
    and d: "\<not> path_exists (fs s) (note_path note @ [''.done'']) \<or> tags_changed"
  shows "synchronise_step r acc note s =
           bindE (synchronise_note_done r note (note_path note) (identifier note))
             (\<lambda>u. ret (tc, snd acc @ [identifier note])) s1"
proof -
  from compare_backup_state [OF c] have f: "fs s1 = fs s" by simp
  have "synchronise_step r acc note s =
      thenE (\<lambda>s. (if \<not> path_exists (fs s) (note_path note @ [''.done'']) \<or> tags_changed
                   then synchronise_note_done r note (note_path note) (identifier note)
                   else ret ()) s)
        (ret (tc, snd acc @ [identifier note])) s1"
    unfolding synchronise_step_unfold by (simp add: bindE_def c)
  also have "\<dots> = bindE (synchronise_note_done r note (note_path note) (identifier note))
             (\<lambda>u. ret (tc, snd acc @ [identifier note])) s1"
    using d f by (simp add: thenE_def bindE_def)
  finally show ?thesis .
qed

lemma step_skip:
  assumes c: "compare_backup note (note_path note) (fst acc) (s\<lparr>nlist := (nlist s)(identifier note \<mapsto> note)\<rparr>) = (Inr (False, tc), s1)"
    and d: "path_exists (fs s) (note_path note @ [''.done''])"
  shows "synchronise_step r acc note s = (Inr (tc, snd acc @ [identifier note]), s1)"
proof -
  from compare_backup_state [OF c] have f: "fs s1 = fs s" by simp
  have "synchronise_step r acc note s =
      thenE (\<lambda>s. (if \<not> path_exists (fs s) (note_path note @ [''.done'']) \<or> False
                   then synchronise_note_done r note (note_path note) (identifier note)
                   else ret ()) s)
        (ret (tc, snd acc @ [identifier note])) s1"
    unfolding synchronise_step_unfold by (simp add: bindE_def c)
  also have "\<dots> = (Inr (tc, snd acc @ [identifier note]), s1)"
    using d f by (simp add: thenE_def bindE_def ret_def)
  finally show ?thesis .
qed


lemma note_contents_state: "note_contents note_id s = (r, s') \<Longrightarrow> s' = s"
  by (auto simp: note_contents_def read_lines_def raise_def ret_def Let_def
      split: if_splits option.splits node.splits content.splits)

lemma note_links_Inr_state:
  assumes "note_links note_id s = (Inr links, s')"
  shows "s' = s"
proof -
  from assms obtain content s1 where c: "note_contents note_id s = (Inr content, s1)"
    and l: "(case links_of_lines content [] of
               Inl line \<Rightarrow>
                 thenE (print (''ERROR: unterminated link in note '' @ note_id))
                   (thenE (print (''  '' @ line)) (raise SystemExit))
             | Inr links \<Rightarrow> ret links) s1 = (Inr links, s')"
    by (auto simp: note_links_def bindE_Inr)
  from c have "s1 = s" by (rule note_contents_state)
  moreover from l have "s' = s1"
    by (cases "links_of_lines content []") (auto simp: ret_def thenE_Inr raise_def)
  ultimately show ?thesis by simp
qed

lemma forE_skip: "\<forall>x\<in>set xs. f x s = (Inr (), s) \<Longrightarrow> forE xs f s = (Inr (), s)"
  by (induction xs) (auto simp: ret_def thenE_def bindE_def)

lemma synchronise_links_no_match:
  assumes "note_links ident s = (Inr links, s')" and "set links \<inter> set title_changed = {}"
  shows "synchronise_links r title_changed ident s = (Inr (), s)"
proof -
  from assms(1) have s': "s' = s" by (rule note_links_Inr_state)
  have "forE links
          (\<lambda>link. if link \<in> set title_changed then
                     (\<lambda>s. (case nlist s ident of
                              None \<Rightarrow> raise KeyError
                            | Some note \<Rightarrow>
                                synchronise_note_done r note
                                  (snapshot_path ident (replace_colon (modificationDate note)))
                                  ident) s)
                   else ret ()) s = (Inr (), s)"
    using assms(2) by (intro forE_skip) (auto simp: ret_def)
  with assms(1) s' show ?thesis by (simp add: synchronise_links_def bindE_def)
qed

lemma compare_backup_titles:
  assumes "compare_backup note path tc0 s = (Inr (tags_changed, tc), s1)"
  shows "tc = (if path_exists (fs s) (path @ [''note.json'']) then tc0
               else case latest_meta (fs s) (identifier note) of
                      None \<Rightarrow> tc0
                    | Some meta \<Rightarrow> if title meta \<noteq> title note then tc0 @ [title meta] else tc0)"
proof (cases "path_exists (fs s) (path @ [''note.json''])")
  case True
  with assms show ?thesis
    by (auto simp: compare_backup_def bindE_Inr ret_def)
next
  case False
  show ?thesis
  proof (cases "glob (fs s) (note_dir (identifier note)) = []")
    case True
    with False assms show ?thesis
      by (simp add: compare_backup_def latest_meta_def ret_def)
  next
    case ne: False
    then have ne': "sort (glob (fs s) (note_dir (identifier note))) \<noteq> []"
      by (metis length_sort length_0_conv)
    from assms False ne' obtain meta s2 where
      m0: "read_json (note_dir (identifier note) @
            [last (sort (glob (fs s) (note_dir (identifier note)))), ''note.json'']) s = (Inr meta, s2)"
      and t: "tc = (if title meta \<noteq> title note then tc0 @ [title meta] else tc0)"
      by (auto simp: compare_backup_def bindE_Inr thenE_Inr ret_def print_def
          split: if_splits)
    from m0 have "s2 = s" by (rule read_json_state)
    with m0 have m: "read_json (note_dir (identifier note) @
            [last (sort (glob (fs s) (note_dir (identifier note)))), ''note.json'']) s = (Inr meta, s)"
      by simp
    from m have "latest_meta (fs s) (identifier note) = Some meta"
      using ne by (simp add: latest_meta_def read_json_Inr)
    with False t show ?thesis by simp
  qed
qed


section \<open>Deletion reconciliation\<close>

lemma active_dir_eq: "active_dir = [''Users'', ''csp'', ''Backups'', ''Bear'', ''active'']"
  by (simp add: active_dir_def Path_def BACKUP_DIR_def parts_def)

lemma deleted_dir_eq: "deleted_dir = [''Users'', ''csp'', ''Backups'', ''Bear'', ''deleted'']"
  by (simp add: deleted_dir_def pjoin_def Path_def BACKUP_DIR_def parts_def)

lemma pjoin_active: "pjoin (Path BACKUP_DIR) ''active'' = active_dir"
  by (simp add: active_dir_eq pjoin_def Path_def BACKUP_DIR_def parts_def)

lemma lookup_rename_entries:
  assumes "\<not> prefix src dst" "\<not> prefix dst src"
  shows "lookup (rename_entries src dst f) q =
           (if prefix dst q then lookup f (src @ drop (length dst) q)
            else if prefix src q then None
            else lookup f q)"
proof (induction f)
  case Nil
  show ?case by (simp add: rename_entries_def lookup_def)
next
  case (Cons e f)
  obtain k v where e: "e = (k, v)" by (cases e)
  have IH: "map_of (rename_entries src dst f) q =
           (if prefix dst q then map_of f (src @ drop (length dst) q)
            else if prefix src q then None
            else map_of f q)"
    using Cons by (simp add: lookup_def)
  show ?case
  proof (cases "prefix dst k")
    case True
    then have "rename_entries src dst (e # f) = rename_entries src dst f"
      by (simp add: rename_entries_def e)
    moreover have "k \<noteq> src @ drop (length dst) q"
      using True assms by (metis prefix_append prefix_order.dual_order.refl prefix_same_cases)
    moreover have "\<not> prefix dst q \<Longrightarrow> k \<noteq> q" using True by auto
    ultimately show ?thesis using IH by (auto simp: lookup_def e)
  next
    case nd: False
    show ?thesis
    proof (cases "prefix src k")
      case True
      then obtain rest where k: "k = src @ rest" by (auto simp: prefix_def)
      have r: "rename_entries src dst (e # f) = (dst @ rest, v) # rename_entries src dst f"
        using nd True by (simp add: rename_entries_def e k)
      show ?thesis
      proof (cases "prefix dst q")
        case pd: True
        then obtain rq where q: "q = dst @ rq" by (auto simp: prefix_def)
        show ?thesis using IH by (simp add: lookup_def r [unfolded e k] e k q)
      next
        case npd: False
        then have 1: "dst @ rest \<noteq> q" by auto
        have 2: "\<not> prefix src q \<Longrightarrow> k \<noteq> q" using True by auto
        show ?thesis using IH npd 1 2 by (auto simp: lookup_def r [unfolded e] e)
      qed
    next
      case ns: False
      have r: "rename_entries src dst (e # f) = (k, v) # rename_entries src dst f"
        using nd ns by (simp add: rename_entries_def e)
      have 1: "prefix dst q \<Longrightarrow> k \<noteq> q" using nd by auto
      have 2: "k \<noteq> src @ drop (length dst) q" using ns by auto
      have 3: "prefix src q \<Longrightarrow> k \<noteq> q" using ns by auto
      show ?thesis using IH 1 2 3 by (auto simp: lookup_def r [unfolded e] e)
    qed
  qed
qed


lemma Path_BACKUP_DIR: "Path BACKUP_DIR = [''Users'', ''csp'', ''Backups'', ''Bear'']"
  by (simp add: Path_def BACKUP_DIR_def parts_def)

lemma area_paths:
  "\<not> prefix (active_dir @ [n]) (deleted_dir @ q)"
  "\<not> prefix (deleted_dir @ [n]) (active_dir @ q)"
  "\<not> prefix (active_dir @ [n]) deleted_dir"
  "\<not> prefix (deleted_dir @ [n]) deleted_dir"
  "active_dir @ m # rest \<noteq> deleted_dir"
  "deleted_dir @ m # rest \<noteq> deleted_dir"
  "butlast (deleted_dir @ [n]) = deleted_dir"
  "butlast deleted_dir = Path BACKUP_DIR"
  "deleted_dir \<noteq> []"
  by (simp_all add: active_dir_eq deleted_dir_eq Path_BACKUP_DIR)

lemma entry_paths:
  "prefix (d @ [n]) (d @ m # rest) \<longleftrightarrow> n = m"
  "drop (length (d @ [n])) (d @ n # rest) = rest"
  by simp_all

lemma mkdir_deleted:
  assumes "deleted_area_ok (fs s)"
  shows "\<exists>s0. mkdir_exist_ok deleted_dir s = (Inr (), s0) \<and>
           lookup (fs s0) deleted_dir = Some Dir \<and>
           (\<forall>q. q \<noteq> deleted_dir \<longrightarrow> lookup (fs s0) q = lookup (fs s) q) \<and>
           stdout s0 = stdout s \<and> nlist s0 = nlist s"
proof (cases "lookup (fs s) deleted_dir")
  case None
  with assms have "is_dir (fs s) (butlast deleted_dir)"
    by (simp add: deleted_area_ok_def area_paths)
  with None show ?thesis
    by (simp add: mkdir_exist_ok_def thenE_def bindE_def put_def log_def lookup_def)
next
  case (Some n)
  with assms have "n = Dir" by (simp add: deleted_area_ok_def)
  with Some show ?thesis by (simp add: mkdir_exist_ok_def ret_def)
qed

lemma rename_area:
  assumes "path_exists (fs s) (active_dir @ [n])" "lookup (fs s) deleted_dir = Some Dir"
  shows "rename (active_dir @ [n]) (deleted_dir @ [n]) s =
           (Inr (), s\<lparr>fs := rename_entries (active_dir @ [n]) (deleted_dir @ [n]) (fs s),
                       trace := trace s @ [Rename (active_dir @ [n]) (deleted_dir @ [n])]\<rparr>)"
  using assms by (simp add: rename_def is_dir_def area_paths thenE_def bindE_def log_def)

lemma lookup_rename_area:
  "lookup (rename_entries (active_dir @ [n]) (deleted_dir @ [n]) f) q =
     (if prefix (deleted_dir @ [n]) q then lookup f (active_dir @ [n] @ drop (length (deleted_dir @ [n])) q)
      else if prefix (active_dir @ [n]) q then None
      else lookup f q)"
  using lookup_rename_entries [of "active_dir @ [n]" "deleted_dir @ [n]" f q]
    area_paths(1) [of n "[n]"] area_paths(2) [of n "[n]"]
  by simp

text \<open>What one step of the reconciliation leaves for the entry it handles.\<close>

definition reconciled :: "string list \<Rightarrow> 't fsys \<Rightarrow> 't state \<Rightarrow> string \<Rightarrow> bool" where
  "reconciled active f s' n =
     (if n \<in> set active then same_history f (fs s') n
      else if path_exists f (deleted_dir @ [n])
      then same_history f (fs s') n \<and> already_deleted n \<in> set (stdout s')
      else moved_history f (fs s') n)"

lemma remove_deleted_note_step:
  assumes ok: "deleted_area_ok (fs s)" and ex: "path_exists (fs s) (active_dir @ [n])"
  shows "\<exists>s'. remove_deleted_note active n s = (Inr (), s') \<and>
           lookup (fs s') deleted_dir = Some Dir \<and>
           (\<forall>m. m \<noteq> n \<longrightarrow> same_history (fs s) (fs s') m) \<and>
           set (stdout s) \<subseteq> set (stdout s') \<and> nlist s' = nlist s \<and>
           reconciled active (fs s) s' n"
proof -
  from mkdir_deleted [OF ok] obtain s0 where
    m: "mkdir_exist_ok deleted_dir s = (Inr (), s0)" and d: "lookup (fs s0) deleted_dir = Some Dir"
    and fr: "\<And>q. q \<noteq> deleted_dir \<Longrightarrow> lookup (fs s0) q = lookup (fs s) q"
    and so: "stdout s0 = stdout s" and nl: "nlist s0 = nlist s"
    by blast
  have sh0: "same_history (fs s) (fs s0) m" for m
    by (simp add: same_history_def fr area_paths)
  have pe: "path_exists (fs s0) (deleted_dir @ [n]) = path_exists (fs s) (deleted_dir @ [n])"
    by (simp add: path_exists_def fr area_paths)
  have ex0: "path_exists (fs s0) (active_dir @ [n])"
    using ex by (simp add: path_exists_def fr area_paths)
  show ?thesis
  proof (cases "n \<in> set active")
    case True
    with m have "remove_deleted_note active n s = (Inr (), s0)"
      by (simp add: remove_deleted_note_def thenE_def bindE_def ret_def)
    with d sh0 so nl True show ?thesis by (auto simp: reconciled_def)
  next
    case na: False
    show ?thesis
    proof (cases "path_exists (fs s) (deleted_dir @ [n])")
      case True
      with m na pe have
        "remove_deleted_note active n s = (Inr (), s0\<lparr>stdout := stdout s0 @ [already_deleted n]\<rparr>)"
        by (simp add: remove_deleted_note_def thenE_def bindE_def print_def already_deleted_def)
      with d sh0 so nl na True show ?thesis by (auto simp: reconciled_def)
    next
      case False
      let ?s1 = "s0\<lparr>fs := rename_entries (active_dir @ [n]) (deleted_dir @ [n]) (fs s0),
                      trace := trace s0 @ [Rename (active_dir @ [n]) (deleted_dir @ [n])]\<rparr>"
      let ?s' = "?s1\<lparr>stdout := stdout ?s1 @ [n @ '' deleted'']\<rparr>"
      from m na pe False rename_area [OF ex0 d] have r: "remove_deleted_note active n s = (Inr (), ?s')"
        by (simp add: remove_deleted_note_def thenE_def bindE_def print_def pjoin_active)
      have 1: "lookup (fs ?s') deleted_dir = Some Dir"
        using d by (simp add: lookup_rename_area area_paths)
      have 2: "same_history (fs s) (fs ?s') m" if "m \<noteq> n" for m
        using that sh0 [of m] by (simp add: same_history_def lookup_rename_area area_paths)
      have 3: "moved_history (fs s) (fs ?s') n"
        using sh0 [of n] by (simp add: moved_history_def same_history_def lookup_rename_area area_paths)
      from r 1 2 3 so nl na False show ?thesis by (auto simp: reconciled_def)
    qed
  qed
qed


lemma same_history_trans:
  "same_history f f1 n \<Longrightarrow> same_history f1 f2 n \<Longrightarrow> same_history f f2 n"
  by (simp add: same_history_def)

lemma same_history_exists:
  "same_history f f1 n \<Longrightarrow> path_exists f1 (active_dir @ [n]) = path_exists f (active_dir @ [n]) \<and>
     path_exists f1 (deleted_dir @ [n]) = path_exists f (deleted_dir @ [n])"
  by (simp add: same_history_def path_exists_def)

lemma reconciled_earlier:
  "same_history f f1 n \<Longrightarrow> reconciled active f1 s' n \<Longrightarrow> reconciled active f s' n"
  using same_history_exists [of f f1 n]
  by (auto simp: reconciled_def same_history_def moved_history_def split: if_splits)

lemma reconciled_later:
  "reconciled active f s1 n \<Longrightarrow> same_history (fs s1) (fs s') n \<Longrightarrow>
     set (stdout s1) \<subseteq> set (stdout s') \<Longrightarrow> reconciled active f s' n"
  by (auto simp: reconciled_def same_history_def moved_history_def split: if_splits)

lemma remove_deleted_loop:
  assumes "deleted_area_ok (fs s)" "distinct names"
    and "\<forall>n\<in>set names. path_exists (fs s) (active_dir @ [n])"
  shows "\<exists>s'. forE names (remove_deleted_note active) s = (Inr (), s') \<and>
           deleted_area_ok (fs s') \<and>
           (\<forall>m. m \<notin> set names \<longrightarrow> same_history (fs s) (fs s') m) \<and>
           set (stdout s) \<subseteq> set (stdout s') \<and> nlist s' = nlist s \<and>
           (\<forall>n\<in>set names. reconciled active (fs s) s' n)"
  using assms
proof (induction names arbitrary: s)
  case Nil
  then show ?case by (simp add: ret_def same_history_def)
next
  case (Cons n ns)
  from Cons.prems have ex: "path_exists (fs s) (active_dir @ [n])" by simp
  from remove_deleted_note_step [OF Cons.prems(1) ex, of active] obtain s1 where
    st: "remove_deleted_note active n s = (Inr (), s1)"
    and d1: "lookup (fs s1) deleted_dir = Some Dir"
    and fr1: "\<And>m. m \<noteq> n \<Longrightarrow> same_history (fs s) (fs s1) m"
    and so1: "set (stdout s) \<subseteq> set (stdout s1)" and nl1: "nlist s1 = nlist s"
    and rc1: "reconciled active (fs s) s1 n"
    by blast
  have ok1: "deleted_area_ok (fs s1)" using d1 by (simp add: deleted_area_ok_def)
  from Cons.prems(2) have dn: "distinct ns" and nn: "n \<notin> set ns" by simp_all
  have ex1: "\<forall>m\<in>set ns. path_exists (fs s1) (active_dir @ [m])"
  proof
    fix m assume m: "m \<in> set ns"
    with nn have "m \<noteq> n" by auto
    from same_history_exists [OF fr1 [OF this]] Cons.prems(3) m
    show "path_exists (fs s1) (active_dir @ [m])" by simp
  qed
  from Cons.IH [OF ok1 dn ex1] obtain s' where
    lp: "forE ns (remove_deleted_note active) s1 = (Inr (), s')"
    and ok': "deleted_area_ok (fs s')"
    and fr': "\<And>m. m \<notin> set ns \<Longrightarrow> same_history (fs s1) (fs s') m"
    and so': "set (stdout s1) \<subseteq> set (stdout s')" and nl': "nlist s' = nlist s1"
    and rc': "\<And>m. m \<in> set ns \<Longrightarrow> reconciled active (fs s1) s' m"
    by blast
  have 1: "forE (n # ns) (remove_deleted_note active) s = (Inr (), s')"
    using st lp by (simp add: thenE_def bindE_def)
  have 2: "same_history (fs s) (fs s') m" if "m \<notin> set (n # ns)" for m
  proof -
    from that have "m \<noteq> n" "m \<notin> set ns" by auto
    from same_history_trans [OF fr1 [OF this(1)] fr' [OF this(2)]] show ?thesis .
  qed
  have 3: "reconciled active (fs s) s' m" if "m \<in> set (n # ns)" for m
  proof (cases "m = n")
    case True
    from reconciled_later [OF rc1 fr' [OF nn] so'] True show ?thesis by simp
  next
    case False
    with that have "m \<in> set ns" by simp
    from reconciled_earlier [OF fr1 [OF False] rc' [OF this]] show ?thesis .
  qed
  from 1 ok' 2 3 so1 so' nl1 nl' show ?case by auto
qed

lemma glob_exists: "n \<in> set (glob f d) \<longleftrightarrow> path_exists f (d @ [n])"
proof
  assume "n \<in> set (glob f d)"
  then obtain e where e: "e \<in> set f" "fst e \<noteq> []" "butlast (fst e) = d" "last (fst e) = n"
    by (auto simp: glob_def)
  then have "fst e = d @ [n]" by (metis append_butlast_last_id)
  with e(1) have "d @ [n] \<in> fst ` set f" by force
  then show "path_exists f (d @ [n])"
    by (simp add: path_exists_def lookup_def map_of_eq_None_iff)
next
  assume "path_exists f (d @ [n])"
  then have "d @ [n] \<in> fst ` set f"
    by (simp add: path_exists_def lookup_def map_of_eq_None_iff)
  then obtain e where "e \<in> set f" "fst e = d @ [n]" by auto
  then show "n \<in> set (glob f d)" by (force simp: glob_def)
qed

lemma remove_deleted_total:
  assumes "deleted_area_ok (fs s)"
  shows "\<exists>s'. remove_deleted active s = (Inr (), s') \<and> nlist s' = nlist s \<and>
           set (stdout s) \<subseteq> set (stdout s') \<and>
           (\<forall>n. path_exists (fs s) (active_dir @ [n]) \<longrightarrow> reconciled active (fs s) s' n)"
proof -
  have "distinct (glob (fs s) active_dir)" by (simp add: glob_def)
  moreover have "\<forall>n\<in>set (glob (fs s) active_dir). path_exists (fs s) (active_dir @ [n])"
    by (simp add: glob_exists)
  ultimately show ?thesis
    using remove_deleted_loop [OF assms, of "glob (fs s) active_dir" active]
    by (auto simp: remove_deleted_def glob_exists)
qed

section \<open>The index of notes\<close>

text \<open>A computation keeps the index when it leaves \<^verbatim>\<open>_nlist\<close> as it is, however it ends.\<close>

definition keeps_index :: "('t, 'a) io \<Rightarrow> bool" where
  "keeps_index m \<longleftrightarrow> (\<forall>s. nlist (snd (m s)) = nlist s)"

lemma keeps_indexD: "keeps_index m \<Longrightarrow> m s = (r, s') \<Longrightarrow> nlist s' = nlist s"
  by (metis keeps_index_def snd_conv)

lemma keeps_index_basic [simp]:
  "keeps_index (ret x)" "keeps_index (raise e)" "keeps_index (lift v)"
  "keeps_index (put p n)" "keeps_index (print msg)" "keeps_index (log ev)"
  by (simp_all add: keeps_index_def ret_def raise_def lift_def put_def print_def log_def)

lemma keeps_index_bindE:
  assumes "keeps_index m" "\<And>x. keeps_index (f x)"
  shows "keeps_index (bindE m f)"
  unfolding keeps_index_def
proof
  fix s
  obtain r s1 where ms: "m s = (r, s1)" by (cases "m s")
  from keeps_indexD [OF assms(1) ms] have n1: "nlist s1 = nlist s" .
  show "nlist (snd (bindE m f s)) = nlist s"
  proof (cases r)
    case (Inl e)
    with ms n1 show ?thesis by (simp add: bindE_def)
  next
    case (Inr x)
    obtain r2 s2 where fx: "f x s1 = (r2, s2)" by (cases "f x s1")
    from keeps_indexD [OF assms(2) fx] n1 ms Inr fx show ?thesis by (simp add: bindE_def)
  qed
qed

lemma keeps_index_thenE: "keeps_index m \<Longrightarrow> keeps_index k \<Longrightarrow> keeps_index (thenE m k)"
  unfolding thenE_def by (rule keeps_index_bindE)

lemma keeps_index_forE: "(\<And>x. keeps_index (f x)) \<Longrightarrow> keeps_index (forE xs f)"
  by (induction xs) (auto intro!: keeps_index_thenE)

lemmas keeps_index_intros = keeps_index_bindE keeps_index_thenE keeps_index_forE

lemma keeps_index_stateI: "(\<And>s. nlist (snd (m s)) = nlist s) \<Longrightarrow> keeps_index m"
  by (simp add: keeps_index_def)

lemma keeps_index_mkdir_chain [simp]: "keeps_index (mkdir_chain base cs :: ('t, unit) io)"
proof (induction cs arbitrary: base)
  case Nil show ?case by simp
next
  case (Cons c cs)
  have 1: "keeps_index (thenE (put (base @ [c]) Dir) (mkdir_chain (base @ [c]) cs :: ('t, unit) io))"
    by (rule keeps_index_thenE) (simp_all add: Cons.IH)
  show ?case
  proof (rule keeps_index_stateI)
    fix s :: "'t state"
    show "nlist (snd (mkdir_chain base (c # cs) s)) = nlist s"
      using 1 Cons.IH [of "base @ [c]"]
      by (auto simp: keeps_index_def raise_def split: option.splits node.splits)
  qed
qed

lemma keeps_index_mkdir_parents [simp]: "keeps_index (mkdir_parents p)"
  unfolding mkdir_parents_def by (intro keeps_index_intros) simp_all

lemma keeps_index_check_open_w [simp]: "keeps_index (check_open_w p)"
  by (rule keeps_index_stateI) (simp add: check_open_w_def raise_def ret_def)

lemma keeps_index_write_json [simp]: "keeps_index (write_json p n)"
  unfolding write_json_def by (intro keeps_index_intros) simp_all

lemma keeps_index_open_w [simp]: "keeps_index (open_w p)"
  unfolding open_w_def by (intro keeps_index_intros) simp_all

lemma keeps_index_write_line [simp]: "keeps_index (write_line p l)"
  by (rule keeps_index_stateI) (simp add: write_line_def thenE_def bindE_def put_def log_def)

lemma keeps_index_copy [simp]: "keeps_index (copy src dst :: ('t, unit) io)"
proof (rule keeps_index_stateI)
  fix s :: "'t state"
  have "keeps_index (thenE (check_open_w t) (thenE (put t (File x)) (log (Copy src dst))))"
    for t and x :: "'t content"
    by (intro keeps_index_intros) simp_all
  then show "nlist (snd (copy src dst s)) = nlist s"
    by (auto simp: copy_def Let_def keeps_index_def raise_def split: option.splits node.splits)
qed

lemma keeps_index_touch [simp]: "keeps_index (touch p :: ('t, unit) io)"
proof (rule keeps_index_stateI)
  fix s :: "'t state"
  have "keeps_index (thenE (check_open_w p) (thenE (put p (File (Text []))) (log (Touch p))) :: ('t, unit) io)"
    by (intro keeps_index_intros) simp_all
  then show "nlist (snd (touch p s)) = nlist s"
    by (auto simp: touch_def keeps_index_def log_def)
qed

lemma keeps_index_synchronise_attachment [simp]:
  "keeps_index (synchronise_attachment atype path line)"
  unfolding synchronise_attachment_def by (auto intro!: keeps_index_intros)

lemma keeps_index_synchronise_line [simp]: "keeps_index (synchronise_line path line)"
  unfolding synchronise_line_def by (auto intro!: keeps_index_intros)

lemma keeps_index_synchronise_note [simp]: "keeps_index (synchronise_note r note path ident)"
  unfolding synchronise_note_def xcall_open_note_def by (intro keeps_index_intros) simp_all

lemma keeps_index_synchronise_note_done [simp]:
  "keeps_index (synchronise_note_done r note path ident)"
  unfolding synchronise_note_done_def by (intro keeps_index_intros) simp_all

lemma keeps_index_note_links [simp]: "keeps_index (note_links note_id)"
proof (rule keeps_index_stateI)
  fix s :: "'a state"
  obtain r s1 where c: "note_contents note_id s = (r, s1)" by (cases "note_contents note_id s")
  then have "s1 = s" by (rule note_contents_state)
  with c show "nlist (snd (note_links note_id s)) = nlist s"
    by (cases r)
      (auto simp: note_links_def bindE_def thenE_def print_def raise_def ret_def split: sum.splits)
qed

lemma keeps_index_synchronise_links [simp]:
  "keeps_index (synchronise_links r title_changed ident :: ('t, unit) io)"
proof -
  have "keeps_index (\<lambda>s :: 't state. (case nlist s ident of
          None \<Rightarrow> raise KeyError
        | Some note \<Rightarrow>
            synchronise_note_done r note
              (snapshot_path ident (replace_colon (modificationDate note))) ident) s)"
    using keeps_index_synchronise_note_done [of r]
    by (auto simp: keeps_index_def raise_def split: option.splits)
  then show ?thesis
    unfolding synchronise_links_def by (auto intro!: keeps_index_intros)
qed

lemma keeps_index_compare_backup [simp]: "keeps_index (compare_backup note path tc)"
  by (rule keeps_index_stateI) (metis compare_backup_state prod.collapse)

lemma synchronise_step_index:
  assumes "synchronise_step r acc note s = (res, s')"
  shows "nlist s' = (nlist s)(identifier note \<mapsto> note)"
    and "res = Inr acc' \<Longrightarrow> snd acc' = snd acc @ [identifier note]"
proof -
  let ?rest = "\<lambda>c. thenE
               (\<lambda>s. (if \<not> path_exists (fs s) (note_path note @ [''.done'']) \<or> fst c
                      then synchronise_note_done r note (note_path note) (identifier note)
                      else ret ()) s)
               (ret (snd c, snd acc @ [identifier note]))"
  have k: "keeps_index (bindE (compare_backup note (note_path note) (fst acc)) ?rest)"
  proof (intro keeps_index_intros keeps_index_compare_backup)
    fix c :: "bool \<times> string list"
    show "keeps_index (\<lambda>s. (if \<not> path_exists (fs s) (note_path note @ [''.done'']) \<or> fst c
                      then synchronise_note_done r note (note_path note) (identifier note)
                      else ret ()) s)"
      using keeps_index_synchronise_note_done [of r "note" "note_path note" "identifier note"]
      by (auto simp: keeps_index_def ret_def)
  qed simp
  from assms have e: "bindE (compare_backup note (note_path note) (fst acc)) ?rest
       (s\<lparr>nlist := (nlist s)(identifier note \<mapsto> note)\<rparr>) = (res, s')"
    by (simp add: synchronise_step_unfold)
  from keeps_indexD [OF k e] show "nlist s' = (nlist s)(identifier note \<mapsto> note)" by simp
  show "snd acc' = snd acc @ [identifier note]" if "res = Inr acc'"
    using e that by (auto simp: bindE_Inr thenE_Inr ret_def)
qed

lemma synchronise_loop_index:
  "foldE (synchronise_step r) nl acc s = (Inr acc', s') \<Longrightarrow>
     snd acc' = snd acc @ map identifier nl \<and> dom (nlist s') = dom (nlist s) \<union> identifier ` set nl"
proof (induction nl arbitrary: acc s)
  case Nil then show ?case by (simp add: ret_def)
next
  case (Cons n nl)
  from Cons.prems obtain acc1 s1 where 1: "synchronise_step r acc n s = (Inr acc1, s1)"
    and 2: "foldE (synchronise_step r) nl acc1 s1 = (Inr acc', s')"
    by (auto simp: bindE_Inr)
  from synchronise_step_index [OF 1] Cons.IH [OF 2] show ?case by auto
qed

lemma synchronise_notes_index:
  assumes "synchronise_notes r s = (Inr active, s1)"
  shows "\<exists>nl. search_notes r = Inr nl \<and> active = map identifier nl \<and> dom (nlist s1) = set active"
proof -
  from assms obtain nl acc s2 s3 where
    srch: "xcall_search r (s\<lparr>nlist := Map.empty\<rparr>) = (Inr nl, s2)"
    and lp: "foldE (synchronise_step r) nl ([], []) s2 = (Inr acc, s3)"
    and ln: "forE (snd acc) (synchronise_links r (fst acc)) s3 = (Inr (), s1)"
    and ac: "active = snd acc"
    by (auto simp: synchronise_notes_def thenE_Inr bindE_Inr ret_def)
  from srch have n: "search_notes r = Inr nl" and s2: "s2 = s\<lparr>nlist := Map.empty\<rparr>"
    by (auto simp: xcall_search_def lift_def)
  from synchronise_loop_index [OF lp] s2 have
    a: "snd acc = map identifier nl" and d: "dom (nlist s3) = identifier ` set nl" by simp_all
  have "keeps_index (forE (snd acc) (synchronise_links r (fst acc)))"
    by (intro keeps_index_intros) simp
  from keeps_indexD [OF this ln] have "nlist s1 = nlist s3" .
  with n a d ac show ?thesis by simp
qed

section \<open>The read accessors on an identifier without a snapshot\<close>

lemma note_contents_empty:
  "glob (fs s) (note_dir note_id) = [] \<Longrightarrow> note_contents note_id s = (Inl IndexError, s)"
  by (simp add: note_contents_def raise_def)

text \<open>
  C10. When the directory of an identifier in the active area has no entry (it is empty
  or does not exist), \<^verbatim>\<open>note_contents\<close> and \<^verbatim>\<open>note_links\<close> raise \<^verbatim>\<open>IndexError\<close>, from
  \<^verbatim>\<open>note_dates[-1]\<close> on the empty list, and change nothing: they return neither an empty
  result nor an error of their own.
\<close>

theorem accessors_index_error:
  "glob (fs s) (note_dir note_id) = [] \<Longrightarrow>
     note_contents note_id s = (Inl IndexError, s) \<and> note_links note_id s = (Inl IndexError, s)"
  by (simp add: note_contents_empty note_links_def bindE_def)

theorem accessors_index_error_witness:
  "glob (fs empty_state) (note_dir ''X'') = [] \<and>
   note_contents ''X'' empty_state = (Inl IndexError, empty_state) \<and>
   note_links ''X'' empty_state = (Inl IndexError, empty_state)"
  using accessors_index_error [of empty_state "''X''"]
  by (simp add: empty_state_def glob_def)

section \<open>Link extraction\<close>

lemma note_dir_X: "note_dir ''X'' = [''Users'', ''csp'', ''Backups'', ''Bear'', ''active'', ''X'']"
  by (simp add: note_dir_def Path_def BACKUP_DIR_def parts_def)

lemma note_contents_links_state:
  "note_contents ''X'' (links_state content) = (Inr content, links_state content)"
  by (simp add: note_contents_def links_state_def note_dir_X glob_def read_lines_def lookup_def ret_def)

text \<open>
  C6. When a line of the note's latest snapshot has an opening \<^verbatim>\<open>[[\<close> with no closing
  \<^verbatim>\<open>]]\<close> after it on that line, \<^verbatim>\<open>note_links\<close> ends in \<^verbatim>\<open>sys.exit()\<close>: it returns no
  list of titles, whatever the other lines hold and whatever was extracted before.
\<close>

theorem note_links_unterminated:
  assumes "note_contents note_id s = (Inr content, s')"
    and "line \<in> set content" and "unterminated line"
  shows "fst (note_links note_id s) = Inl SystemExit"
proof -
  from assms(2,3) have "\<exists>line\<in>set content. unterminated line" by blast
  then obtain bad where "links_of_lines content [] = Inl bad"
    using links_of_lines_Inl by blast
  with assms(1) show ?thesis
    by (simp add: note_links_def bindE_def thenE_def print_def raise_def)
qed

theorem note_links_unterminated_witness:
  "note_contents ''X'' (links_state [''see [[Plan]]'', ''and [[Budget'']) =
     (Inr [''see [[Plan]]'', ''and [[Budget''], links_state [''see [[Plan]]'', ''and [[Budget'']) \<and>
   ''and [[Budget'' \<in> set [''see [[Plan]]'', ''and [[Budget''] \<and>
   unterminated ''and [[Budget'' \<and>
   fst (note_links ''X'' (links_state [''see [[Plan]]'', ''and [[Budget''])) = Inl SystemExit"
proof -
  have u: "unterminated ''and [[Budget''" by code_simp
  have c: "note_contents ''X'' (links_state [''see [[Plan]]'', ''and [[Budget'']) =
     (Inr [''see [[Plan]]'', ''and [[Budget''], links_state [''see [[Plan]]'', ''and [[Budget''])"
    by (rule note_contents_links_state)
  have m: "''and [[Budget'' \<in> set [''see [[Plan]]'', ''and [[Budget'']" by simp
  from note_links_unterminated [OF c m u] u c show ?thesis by simp
qed

text \<open>
  C7. When no line of the note's latest snapshot has an unterminated link,
  \<^verbatim>\<open>note_links\<close> returns, and changes nothing; its result is the titles between the
  delimiter pairs of the lines (\<open>link_titles\<close>, line after line), each title once, in the
  order of first occurrence. The witness is the line of the specification, followed by a
  line that repeats a title: the result is \<^verbatim>\<open>Project Plan\<close>, \<^verbatim>\<open>Budget\<close>.
\<close>

theorem note_links_titles:
  assumes "note_contents note_id s = (Inr content, s')"
    and "\<forall>line\<in>set content. \<not> unterminated line"
  shows "note_links note_id s = (Inr (first_seen (concat (map link_titles content))), s) \<and>
         distinct (first_seen (concat (map link_titles content))) \<and>
         set (first_seen (concat (map link_titles content))) = (\<Union>line\<in>set content. set (link_titles line))"
proof -
  from assms(1) have "s' = s" by (rule note_contents_state)
  with assms(1) links_of_lines_Inr [OF assms(2), of "[]"]
  have "note_links note_id s = (Inr (first_seen (concat (map link_titles content))), s)"
    by (simp add: note_links_def bindE_def ret_def foldl_add_link_Nil)
  moreover have "distinct (first_seen (concat (map link_titles content)))"
    by (rule distinct_first_seen)
  moreover have "set (first_seen (concat (map link_titles content))) = (\<Union>line\<in>set content. set (link_titles line))"
    by (simp add: set_first_seen)
  ultimately show ?thesis by blast
qed

theorem note_links_titles_witness:
  "note_contents ''X'' (links_state [''see [[Project Plan]] and [[Budget]]'', ''more [[Budget]]'']) =
     (Inr [''see [[Project Plan]] and [[Budget]]'', ''more [[Budget]]''],
      links_state [''see [[Project Plan]] and [[Budget]]'', ''more [[Budget]]'']) \<and>
   \<not> unterminated ''see [[Project Plan]] and [[Budget]]'' \<and>
   \<not> unterminated ''more [[Budget]]'' \<and>
   note_links ''X'' (links_state [''see [[Project Plan]] and [[Budget]]'', ''more [[Budget]]'']) =
     (Inr [''Project Plan'', ''Budget''],
      links_state [''see [[Project Plan]] and [[Budget]]'', ''more [[Budget]]''])"
proof -
  have u1: "\<not> unterminated ''see [[Project Plan]] and [[Budget]]''" by code_simp
  have u2: "\<not> unterminated ''more [[Budget]]''" by code_simp
  have c: "note_contents ''X'' (links_state [''see [[Project Plan]] and [[Budget]]'', ''more [[Budget]]'']) =
     (Inr [''see [[Project Plan]] and [[Budget]]'', ''more [[Budget]]''],
      links_state [''see [[Project Plan]] and [[Budget]]'', ''more [[Budget]]''])"
    by (rule note_contents_links_state)
  have a: "\<forall>line\<in>set [''see [[Project Plan]] and [[Budget]]'', ''more [[Budget]]'']. \<not> unterminated line"
    using u1 u2 by simp
  have t: "first_seen (concat (map link_titles [''see [[Project Plan]] and [[Budget]]'', ''more [[Budget]]''])) =
      [''Project Plan'', ''Budget'']"
    by (simp add: link_titles_def)
  from note_links_titles [OF c a] have
    "note_links ''X'' (links_state [''see [[Project Plan]] and [[Budget]]'', ''more [[Budget]]'']) =
       (Inr [''Project Plan'', ''Budget''],
        links_state [''see [[Project Plan]] and [[Budget]]'', ''more [[Budget]]''])"
    unfolding t by blast
  with u1 u2 c show ?thesis by blast
qed

section \<open>The main loop: fetch or skip\<close>

text \<open>The store \<open>ab_state\<close> is the store a pass leaves when Bear lists the note with the
  tag \<^verbatim>\<open>ab\<close>.\<close>

lemma ab_state_first_pass:
  "same_files (fs (snd (synchronise ab_remote no_files))) (fs ab_state)"
  by code_simp

text \<open>
  C1. A change of the tag set at an unchanged modification time is not always fetched.
  Line 137 compares \<^verbatim>\<open>sorted(meta["tags"])\<close> with \<^verbatim>\<open>sorted(note["tags"])\<close>, and the value of
  \<^verbatim>\<open>tags\<close> is a string, so what is compared are the characters of the two strings. Tag
  sets whose strings are made of the same characters compare equal. After the tag \<^verbatim>\<open>ab\<close>
  of note \<^verbatim>\<open>X\<close> was renamed to \<^verbatim>\<open>ba\<close>, the snapshot records the tag set of \<^verbatim>\<open>ab\<close> alone, Bear
  lists the tag set of \<^verbatim>\<open>ba\<close> alone at the same modification time, and the pass skips the
  note: it returns, it has made no call that writes, the store is as it was, and
  \<^verbatim>\<open>note.json\<close> still records the tag \<^verbatim>\<open>ab\<close>.
\<close>

theorem anagram_tags_skipped:
  "tag_names (tags ab_note) = [''ab''] \<and> tag_names (tags ba_note) = [''ba''] \<and>
   modificationDate ba_note = modificationDate ab_note \<and>
   lookup (fs ab_state) (note_path ba_note @ [''note.json'']) = Some (File (Json ab_note)) \<and>
   sort (tags ab_note) = sort (tags ba_note) \<and>
   fst (synchronise ba_remote ab_state) = Inr () \<and>
   trace (snd (synchronise ba_remote ab_state)) = trace ab_state \<and>
   fs (snd (synchronise ba_remote ab_state)) = fs ab_state \<and>
   lookup (fs (snd (synchronise ba_remote ab_state))) (note_path ba_note @ [''note.json'']) =
     Some (File (Json ab_note))"
  by code_simp

text \<open>
  A change that changes the characters is fetched: after the tag \<^verbatim>\<open>ab\<close> was renamed to
  \<^verbatim>\<open>ac\<close>, the pass on the same store writes the snapshot again at the same modification
  time, and afterwards \<^verbatim>\<open>note.json\<close> holds the note as Bear lists it and \<^verbatim>\<open>note.md\<close> its
  text.
\<close>

lemma changed_characters_fetched:
  "tag_names (tags ac_note) = [''ac''] \<and>
   modificationDate ac_note = modificationDate ab_note \<and>
   fst (synchronise ac_remote ab_state) = Inr () \<and>
   trace (snd (synchronise ac_remote ab_state)) =
     [Mkdir (note_path ab_note),
      WriteJson (note_path ab_note @ [''note.json'']) ac_note,
      OpenW (note_path ab_note @ [''note.md'']),
      WriteLine (note_path ab_note @ [''note.md'']) ''text'',
      Touch (note_path ab_note @ [''.done''])] \<and>
   lookup (fs (snd (synchronise ac_remote ab_state))) (note_path ab_note @ [''note.json'']) =
     Some (File (Json ac_note)) \<and>
   lookup (fs (snd (synchronise ac_remote ab_state))) (note_path ab_note @ [''note.md'']) =
     Some (File (Text [''text''])) \<and>
   path_exists (fs (snd (synchronise ac_remote ab_state))) (note_path ab_note @ [''.done''])"
  by code_simp

text \<open>
  In general: when the snapshot directory holds a \<^verbatim>\<open>note.json\<close> whose value of \<^verbatim>\<open>tags\<close>
  differs from the listed one as a multiset of elements (so the sorted values differ),
  the step of the loop is the fetch on that directory, whether the marker is there or
  not.
\<close>

lemma differing_elements_fetched:
  assumes "lookup (fs s) (note_path note @ [''note.json'']) = Some (File (Json meta))"
    and "mset (tags meta) \<noteq> mset (tags note)"
  shows "synchronise_step r acc note s =
      bindE (synchronise_note_done r note (note_path note) (identifier note))
        (\<lambda>u. ret (fst acc, snd acc @ [identifier note]))
        (s\<lparr>nlist := (nlist s)(identifier note \<mapsto> note)\<rparr>)"
proof -
  let ?s1 = "s\<lparr>nlist := (nlist s)(identifier note \<mapsto> note)\<rparr>"
  from assms have c: "compare_backup note (note_path note) (fst acc) ?s1 = (Inr (True, fst acc), ?s1)"
    using compare_backup_json [of "?s1" "note_path note" meta "note" "fst acc"] by simp
  show ?thesis by (rule step_fetch [OF c]) simp
qed

text \<open>
  When the marker is missing and the comparison of lines 132 to 148 returns, the step
  is the fetch.
\<close>

lemma marker_absent_fetches:
  assumes "compare_backup note (note_path note) (fst acc)
             (s\<lparr>nlist := (nlist s)(identifier note \<mapsto> note)\<rparr>) = (Inr (tags_changed, tc), s1)"
    and "\<not> path_exists (fs s) (note_path note @ [''.done''])"
  shows "synchronise_step r acc note s =
           bindE (synchronise_note_done r note (note_path note) (identifier note))
             (\<lambda>u. ret (tc, snd acc @ [identifier note])) s1"
  using assms(1) by (rule step_fetch) (simp add: assms(2))

text \<open>
  C2. A missing marker does not always lead to a fetch: not on a snapshot directory whose
  fetch stopped before \<^verbatim>\<open>note.json\<close> was written. After \<^verbatim>\<open>path.mkdir\<close> alone the directory is the latest entry of the
  identifier and has no \<^verbatim>\<open>note.json\<close>: line 144 opens the missing file and
  \<^verbatim>\<open>synchronise\<close> ends in \<^verbatim>\<open>FileNotFoundError\<close>. After \<^verbatim>\<open>open(path / "note.json", "w")\<close>
  the file is empty: line 136 ends in \<^verbatim>\<open>JSONDecodeError\<close>. In both stores the marker is
  missing, nothing is fetched, and no call that writes is made.
\<close>

theorem interrupted_fetch_not_retried:
  "\<not> path_exists (fs mkdir_only_state) (note_path old_note @ [''.done'']) \<and>
   fst (synchronise old_remote mkdir_only_state) = Inl FileNotFoundError \<and>
   trace (snd (synchronise old_remote mkdir_only_state)) = trace mkdir_only_state \<and>
   \<not> path_exists (fs empty_json_state) (note_path old_note @ [''.done'']) \<and>
   fst (synchronise old_remote empty_json_state) = Inl JSONDecodeError \<and>
   trace (snd (synchronise old_remote empty_json_state)) = trace empty_json_state"
  by code_simp

section \<open>The order of the writes of a fetch\<close>

text \<open>
  C4 (as amended). A fetch, as both loops of \<^verbatim>\<open>synchronise\<close> run it
  (\<^verbatim>\<open>_synchronise_note\<close>, then \<^verbatim>\<open>done.touch()\<close>), that returns has made its calls in this
  order: the directory, \<^verbatim>\<open>note.json\<close>, the opening of \<^verbatim>\<open>note.md\<close>, then for each line of the
  content in turn the write of the line followed by copies only, among them the copy of
  the attachment that the first marker of each kind in the line names, and last of all
  the touch of the marker, which then exists. The copies made for a line so come before
  the next line is written. Which attachments a line with several markers of one kind
  has copied beyond the first is left open. A fetch that raises has made no touch call,
  and the marker exists afterwards only if it existed before the fetch or a copy of the
  fetch was made onto its path. The counterexample is a note with an attachment in its
  first line: the copy comes before the second line is written, so the text is not
  written before the attachments are copied.
\<close>

theorem fetch_order:
  "(synchronise_note_done r note path ident s = (Inr (), s') \<longrightarrow>
      (\<exists>content per_line.
         open_note r ident = Inr content \<and>
         list_all2 (line_calls path) content per_line \<and>
         trace s' = trace s @
           [Mkdir path, WriteJson (path @ [''note.json'']) note, OpenW (path @ [''note.md''])] @
           concat per_line @ [Touch (path @ [''.done''])] \<and>
         path_exists (fs s') (path @ [''.done'']))) \<and>
   (synchronise_note_done r note path ident s = (Inl e, s') \<longrightarrow>
      (\<exists>evs. trace s' = trace s @ evs \<and> \<not> list_ex is_touch evs \<and>
         (path_exists (fs s') (path @ [''.done'']) \<longrightarrow>
            path_exists (fs s) (path @ [''.done'']) \<or>
            list_ex (copy_onto (path @ [''.done''])) evs)))"
proof (intro conjI impI)
  assume "synchronise_note_done r note path ident s = (Inr (), s')"
  from synchronise_note_done_Inr [OF this] obtain content where
    c: "open_note r ident = Inr content"
      "trace s' = trace s @ fetch_events path note content"
      "path_exists (fs s') (path @ [''.done''])"
    by blast
  from c(2) have "trace s' = trace s @
           [Mkdir path, WriteJson (path @ [''note.json'']) note, OpenW (path @ [''note.md''])] @
           concat (map (line_events path) content) @ [Touch (path @ [''.done''])]"
    by (simp add: fetch_events_def)
  with c(1,3) line_calls_content [of path content]
  show "\<exists>content per_line.
         open_note r ident = Inr content \<and>
         list_all2 (line_calls path) content per_line \<and>
         trace s' = trace s @
           [Mkdir path, WriteJson (path @ [''note.json'']) note, OpenW (path @ [''note.md''])] @
           concat per_line @ [Touch (path @ [''.done''])] \<and>
         path_exists (fs s') (path @ [''.done''])"
    by blast
next
  assume "synchronise_note_done r note path ident s = (Inl e, s')"
  from synchronise_note_done_raises [OF this]
  show "\<exists>evs. trace s' = trace s @ evs \<and> \<not> list_ex is_touch evs \<and>
         (path_exists (fs s') (path @ [''.done'']) \<longrightarrow>
            path_exists (fs s) (path @ [''.done'']) \<or>
            list_ex (copy_onto (path @ [''.done''])) evs)" .
qed

theorem fetch_order_witness:
  "fst (synchronise_note_done attach_remote attach_note (note_path attach_note) ''N'' attach_state) = Inr () \<and>
   (\<exists>per_line.
      list_all2 (line_calls (note_path attach_note)) [''[file:U/x.pdf]'', ''second line''] per_line \<and>
      trace (snd (synchronise_note_done attach_remote attach_note (note_path attach_note) ''N'' attach_state)) =
        trace attach_state @
        [Mkdir (note_path attach_note),
         WriteJson (note_path attach_note @ [''note.json'']) attach_note,
         OpenW (note_path attach_note @ [''note.md''])] @
        concat per_line @ [Touch (note_path attach_note @ [''.done''])]) \<and>
   path_exists
     (fs (snd (synchronise_note_done attach_remote attach_note (note_path attach_note) ''N'' attach_state)))
     (note_path attach_note @ [''.done'']) \<and>
   fst (synchronise_note_done marker_copy_remote attach_note (note_path attach_note) ''N''
          marker_copy_state) = Inl FileNotFoundError \<and>
   \<not> path_exists (fs marker_copy_state) (note_path attach_note @ [''.done'']) \<and>
   path_exists
     (fs (snd (synchronise_note_done marker_copy_remote attach_note (note_path attach_note) ''N''
                 marker_copy_state)))
     (note_path attach_note @ [''.done'']) \<and>
   (\<exists>evs.
      trace (snd (synchronise_note_done marker_copy_remote attach_note (note_path attach_note) ''N''
                    marker_copy_state)) = trace marker_copy_state @ evs \<and>
      \<not> list_ex is_touch evs \<and>
      list_ex (copy_onto (note_path attach_note @ [''.done''])) evs)"
proof -
  let ?p = "note_path attach_note"
  let ?a = "synchronise_note_done attach_remote attach_note ?p ''N'' attach_state"
  let ?b = "synchronise_note_done marker_copy_remote attach_note ?p ''N'' marker_copy_state"
  have fa: "fst ?a = Inr ()" by code_simp
  then have a: "?a = (Inr (), snd ?a)" by (metis prod.collapse)
  have o: "open_note attach_remote ''N'' = Inr [''[file:U/x.pdf]'', ''second line'']"
    by (simp add: attach_remote_def)
  from fetch_order [of attach_remote attach_note ?p "''N''" attach_state "snd ?a"] a
  have "\<exists>content per_line.
         open_note attach_remote ''N'' = Inr content \<and>
         list_all2 (line_calls ?p) content per_line \<and>
         trace (snd ?a) = trace attach_state @
           [Mkdir ?p, WriteJson (?p @ [''note.json'']) attach_note, OpenW (?p @ [''note.md''])] @
           concat per_line @ [Touch (?p @ [''.done''])] \<and>
         path_exists (fs (snd ?a)) (?p @ [''.done''])"
    by blast
  with o have 1: "(\<exists>per_line.
         list_all2 (line_calls ?p) [''[file:U/x.pdf]'', ''second line''] per_line \<and>
         trace (snd ?a) = trace attach_state @
           [Mkdir ?p, WriteJson (?p @ [''note.json'']) attach_note, OpenW (?p @ [''note.md''])] @
           concat per_line @ [Touch (?p @ [''.done''])]) \<and>
         path_exists (fs (snd ?a)) (?p @ [''.done''])"
    by auto
  have fb: "fst ?b = Inl FileNotFoundError" by code_simp
  then have b: "?b = (Inl FileNotFoundError, snd ?b)" by (metis prod.collapse)
  have n: "\<not> path_exists (fs marker_copy_state) (?p @ [''.done''])" by code_simp
  have y: "path_exists (fs (snd ?b)) (?p @ [''.done''])" by code_simp
  from fetch_order [of marker_copy_remote attach_note ?p "''N''" marker_copy_state "snd ?b"
      FileNotFoundError] b n y
  have 2: "\<exists>evs. trace (snd ?b) = trace marker_copy_state @ evs \<and> \<not> list_ex is_touch evs \<and>
      list_ex (copy_onto (?p @ [''.done''])) evs"
    by blast
  from fa 1 fb n y 2 show ?thesis by blast
qed

theorem fetch_order_counterexample:
  "fst (synchronise attach_remote attach_state) = Inr () \<and>
   trace (snd (synchronise attach_remote attach_state)) =
     [Mkdir (note_path attach_note),
      WriteJson (note_path attach_note @ [''note.json'']) attach_note,
      OpenW (note_path attach_note @ [''note.md'']),
      WriteLine (note_path attach_note @ [''note.md'']) ''[file:U/x.pdf]'',
      Copy (Path FILES_DIR @ [''U'', ''x.pdf'']) (note_path attach_note @ [''x.pdf'']),
      WriteLine (note_path attach_note @ [''note.md'']) ''second line'',
      Touch (note_path attach_note @ [''.done'']),
      Mkdir deleted_dir] \<and>
   \<not> text_then_attachments (trace (snd (synchronise attach_remote attach_state)))"
  by code_simp

text \<open>
  A line with two markers of one kind: \<^verbatim>\<open>line.find\<close> starts at 0 and
  \<^verbatim>\<open>_synchronise_attachment\<close> is called once for the kind, so the attachment of the second
  marker is not copied, and the marker of the snapshot is set all the same.
\<close>

lemma second_attachment_not_copied:
  "fst (synchronise two_files_remote two_files_state) = Inr () \<and>
   path_exists (fs (snd (synchronise two_files_remote two_files_state)))
     (note_path attach_note @ [''x.pdf'']) \<and>
   \<not> path_exists (fs (snd (synchronise two_files_remote two_files_state)))
     (note_path attach_note @ [''y.pdf'']) \<and>
   path_exists (fs (snd (synchronise two_files_remote two_files_state)))
     (note_path attach_note @ [''.done''])"
  by code_simp

section \<open>The main loop: what is skipped, and which titles are recorded\<close>

text \<open>The example stores are the stores the passes leave.\<close>

lemma link_state_first_pass:
  "same_files (fs (snd (synchronise link_remote empty_state))) (fs link_state)"
  by code_simp

lemma renamed_state_second_pass:
  "same_files (fs (snd (synchronise rename_remote link_state))) (fs renamed_state)"
  by code_simp

text \<open>
  C3 (as amended). When the loop comes to a note whose snapshot directory holds the marker
  and a \<^verbatim>\<open>note.json\<close> whose tags are the tags Bear reports, up to order, the step writes
  nothing: the store and the log of calls stay as they are, and only the index
  \<^verbatim>\<open>_nlist\<close> gets the note. The second loop leaves a note alone when none of the links of
  its latest snapshot is among the changed titles; when one is, it fetches the note again,
  so the pass as a whole may write to a note the main loop skipped. In
  \<open>unchanged_note_rewritten\<close> note \<^verbatim>\<open>B\<close> has its marker and unchanged tags, links to the
  renamed note \<^verbatim>\<open>A\<close>, and the pass writes its snapshot again.
\<close>

theorem unchanged_note_skipped:
  assumes "lookup (fs s) (note_path note @ [''note.json'']) = Some (File (Json meta))"
    and "mset (tags meta) = mset (tags note)"
    and "path_exists (fs s) (note_path note @ [''.done''])"
  shows "synchronise_step r acc note s =
           (Inr (fst acc, snd acc @ [identifier note]),
            s\<lparr>nlist := (nlist s)(identifier note \<mapsto> note)\<rparr>) \<and>
         (\<forall>s1 links title_changed.
            note_links (identifier note) s1 = (Inr links, s1) \<and>
            set links \<inter> set title_changed = {} \<longrightarrow>
            synchronise_links r title_changed (identifier note) s1 = (Inr (), s1))"
proof -
  let ?s1 = "s\<lparr>nlist := (nlist s)(identifier note \<mapsto> note)\<rparr>"
  from assms(1,2) have c: "compare_backup note (note_path note) (fst acc) ?s1 = (Inr (False, fst acc), ?s1)"
    using compare_backup_json [of "?s1" "note_path note" meta "note" "fst acc"] by simp
  have "synchronise_step r acc note s = (Inr (fst acc, snd acc @ [identifier note]), ?s1)"
    using c assms(3) by (rule step_skip)
  then show ?thesis using synchronise_links_no_match by blast
qed

theorem unchanged_note_skipped_witness:
  "lookup (fs link_state) (note_path note_b @ [''note.json'']) = Some (File (Json note_b)) \<and>
   mset (tags note_b) = mset (tags note_b) \<and>
   path_exists (fs link_state) (note_path note_b @ [''.done'']) \<and>
   synchronise_step link_remote ([], []) note_b link_state =
     (Inr ([], [''B'']), link_state\<lparr>nlist := (nlist link_state)(''B'' \<mapsto> note_b)\<rparr>) \<and>
   note_links ''B'' link_state = (Inr [''Old''], link_state) \<and>
   set [''Old''] \<inter> set [''Other''] = {} \<and>
   synchronise_links link_remote [''Other''] ''B'' link_state = (Inr (), link_state)"
proof -
  have j: "lookup (fs link_state) (note_path note_b @ [''note.json'']) = Some (File (Json note_b))"
    by code_simp
  have d: "path_exists (fs link_state) (note_path note_b @ [''.done''])"
    by code_simp
  have i: "identifier note_b = ''B''" by (simp add: note_b_def)
  have "fst (note_links ''B'' link_state) = Inr [''Old'']" by code_simp
  then have "note_links ''B'' link_state = (Inr [''Old''], snd (note_links ''B'' link_state))"
    by (metis prod.collapse)
  with note_links_Inr_state [of "''B''" link_state "[''Old'']" "snd (note_links ''B'' link_state)"]
  have l: "note_links ''B'' link_state = (Inr [''Old''], link_state)" by simp
  have n: "set [''Old''] \<inter> set [''Other''] = {}" by simp
  have m: "mset (tags note_b) = mset (tags note_b)" by simp
  from unchanged_note_skipped [OF j m d, of link_remote "([], [])", unfolded i fst_conv snd_conv append_Nil]
  have 1: "synchronise_step link_remote ([], []) note_b link_state =
     (Inr ([], [''B'']), link_state\<lparr>nlist := (nlist link_state)(''B'' \<mapsto> note_b)\<rparr>)"
    and 2: "\<forall>s1 links title_changed.
            note_links ''B'' s1 = (Inr links, s1) \<and> set links \<inter> set title_changed = {} \<longrightarrow>
            synchronise_links link_remote title_changed ''B'' s1 = (Inr (), s1)"
    by blast+
  from 2 l n have "synchronise_links link_remote [''Other''] ''B'' link_state = (Inr (), link_state)"
    by blast
  with 1 j m d l n show ?thesis by blast
qed

theorem unchanged_note_rewritten:
  "lookup (fs link_state) (note_path note_b @ [''note.json'']) = Some (File (Json note_b)) \<and>
   path_exists (fs link_state) (note_path note_b @ [''.done'']) \<and>
   fst (synchronise rename_remote link_state) = Inr () \<and>
   trace (snd (synchronise rename_remote link_state)) =
     trace link_state @
     fetch_events (note_path note_a') note_a' [''alpha''] @
     fetch_events (note_path note_b) note_b [''see [[New]]'']"
  by code_simp

text \<open>
  C5 (as amended). A step of the main loop that returns has extended \<^verbatim>\<open>title_changed\<close>
  exactly when the snapshot directory of the note has no \<^verbatim>\<open>note.json\<close>, the identifier has
  an entry in the active area, and the \<^verbatim>\<open>note.json\<close> of its latest entry records a title
  other than the one Bear reports; what is appended is that recorded, old title. Whether a
  snapshot is written in the same step plays no part: in the counterexample the title of
  \<^verbatim>\<open>A\<close> is recorded by a step that also writes a fresh snapshot, and in the pass after
  it, which skips \<^verbatim>\<open>A\<close> although the older snapshot still records the old title, nothing
  is recorded.
\<close>

theorem title_change_recorded:
  assumes "synchronise_step r acc note s = (Inr acc', s')"
  shows "fst acc' =
           (if path_exists (fs s) (note_path note @ [''note.json'']) then fst acc
            else case latest_meta (fs s) (identifier note) of
                   None \<Rightarrow> fst acc
                 | Some meta \<Rightarrow>
                     if title meta \<noteq> title note then fst acc @ [title meta] else fst acc)"
proof -
  let ?s1 = "s\<lparr>nlist := (nlist s)(identifier note \<mapsto> note)\<rparr>"
  from assms obtain c s1 where
    c: "compare_backup note (note_path note) (fst acc) ?s1 = (Inr c, s1)" and a: "acc' = (snd c, snd acc @ [identifier note])"
    by (auto simp: synchronise_step_unfold bindE_Inr thenE_Inr ret_def)
  from c have "compare_backup note (note_path note) (fst acc) ?s1 = (Inr (fst c, snd c), s1)" by simp
  from compare_backup_titles [OF this] a show ?thesis by simp
qed


theorem title_change_recorded_witness:
  "fst (synchronise_step rename_remote ([], []) note_a' link_state) = Inr ([''Old''], [''A'']) \<and>
   \<not> path_exists (fs link_state) (note_path note_a' @ [''note.json'']) \<and>
   latest_meta (fs link_state) ''A'' = Some note_a \<and>
   [''Old''] =
     (if path_exists (fs link_state) (note_path note_a' @ [''note.json'']) then []
      else case latest_meta (fs link_state) (identifier note_a') of
             None \<Rightarrow> []
           | Some meta \<Rightarrow> if title meta \<noteq> title note_a' then [] @ [title meta] else [])"
proof -
  let ?res = "synchronise_step rename_remote ([], []) note_a' link_state"
  have f: "fst ?res = Inr ([''Old''], [''A''])" by code_simp
  then have "?res = (Inr ([''Old''], [''A'']), snd ?res)" by (metis prod.collapse)
  from title_change_recorded [OF this] have
    "[''Old''] =
     (if path_exists (fs link_state) (note_path note_a' @ [''note.json'']) then []
      else case latest_meta (fs link_state) (identifier note_a') of
             None \<Rightarrow> []
           | Some meta \<Rightarrow> if title meta \<noteq> title note_a' then [] @ [title meta] else [])"
    unfolding fst_conv .
  moreover have "\<not> path_exists (fs link_state) (note_path note_a' @ [''note.json''])" by code_simp
  moreover have "latest_meta (fs link_state) ''A'' = Some note_a" by code_simp
  ultimately show ?thesis using f by blast
qed

theorem title_change_counterexample:
  "fst (synchronise_step rename_remote ([], []) note_a' link_state) = Inr ([''Old''], [''A'']) \<and>
   trace (snd (synchronise_step rename_remote ([], []) note_a' link_state)) =
     trace link_state @ fetch_events (note_path note_a') note_a' [''alpha''] \<and>
   fst (synchronise_step rename_remote ([], []) note_a' renamed_state) = Inr ([], [''A'']) \<and>
   trace (snd (synchronise_step rename_remote ([], []) note_a' renamed_state)) = trace renamed_state \<and>
   lookup (fs renamed_state) (note_dir ''A'' @ [''T1'', ''note.json'']) = Some (File (Json note_a)) \<and>
   title note_a \<noteq> title note_a'"
  by code_simp

section \<open>Deleted notes\<close>

text \<open>
  C8. Let \<^verbatim>\<open>synchronise\<close> have come to its last loop, in a store where the deleted area is a
  directory or can be made. For every entry of the active area whose name is no identifier
  of Bear's list and has no entry in the deleted area, the pass returns, the entry and
  everything below it (all its snapshots) is then in the deleted area under the same name,
  the active area has it no more, and \<^verbatim>\<open>note_exists\<close> is false for it.
\<close>

theorem deleted_note_moved:
  assumes "synchronise_notes r s = (Inr active, s1)"
    and "search_notes r = Inr nl" and "name \<notin> identifier ` set nl"
    and "path_exists (fs s1) (active_dir @ [name])"
    and "\<not> path_exists (fs s1) (deleted_dir @ [name])"
    and "deleted_area_ok (fs s1)"
  shows "\<exists>s'. synchronise r s = (Inr (), s') \<and> moved_history (fs s1) (fs s') name \<and>
           \<not> note_exists s' name"
proof -
  from synchronise_notes_index [OF assms(1)] assms(2) have
    a: "active = map identifier nl" and d: "dom (nlist s1) = set active" by auto
  with assms(3) have na: "name \<notin> set active" by simp
  from remove_deleted_total [OF assms(6), of active] obtain s' where
    r: "remove_deleted active s1 = (Inr (), s')" and n: "nlist s' = nlist s1"
    and rc: "reconciled active (fs s1) s' name"
    using assms(4) by blast
  from rc na assms(5) have "moved_history (fs s1) (fs s') name" by (simp add: reconciled_def)
  moreover from n d na have "\<not> note_exists s' name" by (simp add: note_exists_def)
  moreover from assms(1) r have "synchronise r s = (Inr (), s')"
    by (simp add: synchronise_def bindE_def)
  ultimately show ?thesis by blast
qed

theorem deleted_note_moved_witness:
  "synchronise_notes only_b_remote link_state =
     (Inr [''B''], snd (synchronise_notes only_b_remote link_state)) \<and>
   search_notes only_b_remote = Inr [note_b] \<and>
   ''A'' \<notin> identifier ` set [note_b] \<and>
   path_exists (fs (snd (synchronise_notes only_b_remote link_state))) (active_dir @ [''A'']) \<and>
   \<not> path_exists (fs (snd (synchronise_notes only_b_remote link_state))) (deleted_dir @ [''A'']) \<and>
   deleted_area_ok (fs (snd (synchronise_notes only_b_remote link_state))) \<and>
   (\<exists>s'. synchronise only_b_remote link_state = (Inr (), s') \<and>
         moved_history (fs (snd (synchronise_notes only_b_remote link_state))) (fs s') ''A'' \<and>
         \<not> note_exists s' ''A'') \<and>
   lookup (fs (snd (synchronise only_b_remote link_state)))
     (deleted_dir @ [''A'', ''T1'', ''note.md'']) = Some (File (Text [''alpha''])) \<and>
   lookup (fs (snd (synchronise only_b_remote link_state))) (active_dir @ [''A'']) = None"
proof -
  let ?s1 = "snd (synchronise_notes only_b_remote link_state)"
  have "fst (synchronise_notes only_b_remote link_state) = Inr [''B'']" by code_simp
  then have 1: "synchronise_notes only_b_remote link_state = (Inr [''B''], ?s1)"
    by (metis prod.collapse)
  have 2: "search_notes only_b_remote = Inr [note_b]" by (simp add: only_b_remote_def)
  have 3: "''A'' \<notin> identifier ` set [note_b]" by (simp add: note_b_def)
  have 4: "path_exists (fs ?s1) (active_dir @ [''A''])" by code_simp
  have 5: "\<not> path_exists (fs ?s1) (deleted_dir @ [''A''])" by code_simp
  have 6: "deleted_area_ok (fs ?s1)" by code_simp
  have 7: "lookup (fs (snd (synchronise only_b_remote link_state)))
     (deleted_dir @ [''A'', ''T1'', ''note.md'']) = Some (File (Text [''alpha'']))" by code_simp
  have 8: "lookup (fs (snd (synchronise only_b_remote link_state))) (active_dir @ [''A'']) = None"
    by code_simp
  from deleted_note_moved [OF 1 2 3 4 5 6] 1 2 3 4 5 6 7 8 show ?thesis by blast
qed

text \<open>
  C9. When the last loop of \<^verbatim>\<open>synchronise\<close> finds an entry of the active area that is not
  in the list \<^verbatim>\<open>active\<close> and the deleted area has an entry of that name already, the loop
  still returns (the anomaly raises nothing), the message of line 178 is printed, and the
  entry of the active area and the entry of the deleted area, with everything below them,
  are what they were: nothing is moved and nothing is overwritten, whatever the loop does
  for the other entries.
\<close>

theorem duplicate_deletion_skipped:
  assumes "deleted_area_ok (fs s)"
    and "path_exists (fs s) (active_dir @ [name])" and "name \<notin> set active"
    and "path_exists (fs s) (deleted_dir @ [name])"
  shows "\<exists>s'. remove_deleted active s = (Inr (), s') \<and> same_history (fs s) (fs s') name \<and>
           already_deleted name \<in> set (stdout s')"
proof -
  from remove_deleted_total [OF assms(1), of active] obtain s' where
    r: "remove_deleted active s = (Inr (), s')" and rc: "reconciled active (fs s) s' name"
    using assms(2) by blast
  from rc assms(3,4) have "same_history (fs s) (fs s') name \<and> already_deleted name \<in> set (stdout s')"
    by (simp add: reconciled_def)
  with r show ?thesis by blast
qed

theorem duplicate_deletion_skipped_witness:
  "deleted_area_ok (fs dup_state) \<and>
   path_exists (fs dup_state) (active_dir @ [''A'']) \<and> ''A'' \<notin> set [''B''] \<and>
   path_exists (fs dup_state) (deleted_dir @ [''A'']) \<and>
   (\<exists>s'. remove_deleted [''B''] dup_state = (Inr (), s') \<and>
         same_history (fs dup_state) (fs s') ''A'' \<and> already_deleted ''A'' \<in> set (stdout s')) \<and>
   fst (remove_deleted [''B''] dup_state) = Inr () \<and>
   fs (snd (remove_deleted [''B''] dup_state)) = fs dup_state \<and>
   trace (snd (remove_deleted [''B''] dup_state)) = [] \<and>
   stdout (snd (remove_deleted [''B''] dup_state)) = [already_deleted ''A'']"
proof -
  have 1: "deleted_area_ok (fs dup_state)" by code_simp
  have 2: "path_exists (fs dup_state) (active_dir @ [''A''])" by code_simp
  have 3: "''A'' \<notin> set [''B'']" by simp
  have 4: "path_exists (fs dup_state) (deleted_dir @ [''A''])" by code_simp
  have 5: "fst (remove_deleted [''B''] dup_state) = Inr () \<and>
   fs (snd (remove_deleted [''B''] dup_state)) = fs dup_state \<and>
   trace (snd (remove_deleted [''B''] dup_state)) = [] \<and>
   stdout (snd (remove_deleted [''B''] dup_state)) = [already_deleted ''A'']" by code_simp
  from duplicate_deletion_skipped [OF 1 2 3 4] 1 2 3 4 5 show ?thesis by blast
qed

end
